theory Spec2Isabelle
  imports Main "HOL-Library.Word"
begin

unbundle bit_operations_syntax

section \<open>Errors\<close>

text \<open>
  Every \<^verbatim>\<open>fmt.Errorf\<close> of the modelled Go code is one constructor. The
  allocators return \<^verbatim>\<open>(value, error)\<close>; the model returns \<open>error + value\<close>.
\<close>

datatype error =
    TooManyCollisions
  | RandomAttemptsExhausted
  | UnknownStrategy string
  | PoolExhausted nat
  | InvalidCIDR

section \<open>SEIDAllocator (\<^verbatim>\<open>internal/session\<close>, the SEID allocator file)\<close>

text \<open>
  \<^verbatim>\<open>usedSEIDs map[uint64]bool\<close> only ever stores \<^verbatim>\<open>true\<close> and is read with
  the zero default, so it is the set of its keys. \<^verbatim>\<open>nextSEID\<close> is a \<^verbatim>\<open>uint64\<close>:
  \<open>+\<close> on \<open>64 word\<close> wraps as Go's \<^verbatim>\<open>++\<close> does.
\<close>

record SEIDAllocator =
  strategy :: string
  nextSEID :: "64 word"
  usedSEIDs :: "64 word set"

definition NewSEIDAllocator :: "string \<Rightarrow> 64 word \<Rightarrow> SEIDAllocator" where
  "NewSEIDAllocator strat startSEID =
     \<lparr>strategy = strat,
      nextSEID = (if startSEID = 0 then 1 else startSEID),
      usedSEIDs = {}\<rparr>"

text \<open>The \<^verbatim>\<open>for i := 0; i < 1000000; i++\<close> loop of the sequential case.\<close>

function sequential_loop ::
  "nat \<Rightarrow> SEIDAllocator \<Rightarrow> (error + 64 word) \<times> SEIDAllocator" where
  "sequential_loop i s =
     (if i < 1000000 then
        (let s1 = (if nextSEID s = 0 then s\<lparr>nextSEID := 1\<rparr> else s);
             seid = nextSEID s1;
             s2 = s1\<lparr>nextSEID := nextSEID s1 + 1\<rparr>
         in if seid \<notin> usedSEIDs s2
            then (Inr seid, s2\<lparr>usedSEIDs := insert seid (usedSEIDs s2)\<rparr>)
            else sequential_loop (i + 1) s2)
      else (Inl TooManyCollisions, s))"
  by pat_completeness auto
termination
  by (relation "measure (\<lambda>(i, s). 1000000 - i)") auto

declare sequential_loop.simps [simp del]

text \<open>
  The \<^verbatim>\<open>for attempts := 0; attempts < 10000; attempts++\<close> loop of the random case.
  \<^verbatim>\<open>rand.Uint64()\<close> is the environment's: \<open>rnd k\<close> is the value the \<open>k\<close>-th draw
  of this call returns.
\<close>

function random_loop ::
  "(nat \<Rightarrow> 64 word) \<Rightarrow> nat \<Rightarrow> SEIDAllocator \<Rightarrow> (error + 64 word) \<times> SEIDAllocator" where
  "random_loop rnd attempts s =
     (if attempts < 10000 then
        (let seid = rnd attempts
         in if seid = 0 \<or> seid \<in> usedSEIDs s
            then random_loop rnd (attempts + 1) s
            else (Inr seid, s\<lparr>usedSEIDs := insert seid (usedSEIDs s)\<rparr>))
      else (Inl RandomAttemptsExhausted, s))"
  by pat_completeness auto
termination
  by (relation "measure (\<lambda>(rnd, attempts, s). 10000 - attempts)") auto

declare random_loop.simps [simp del]

definition SEIDAllocator_Allocate ::
  "(nat \<Rightarrow> 64 word) \<Rightarrow> SEIDAllocator \<Rightarrow> (error + 64 word) \<times> SEIDAllocator" where
  "SEIDAllocator_Allocate rnd s =
     (if strategy s = ''sequential'' then sequential_loop 0 s
      else if strategy s = ''random'' then random_loop rnd 0 s
      else (Inl (UnknownStrategy (strategy s)), s))"

definition SEIDAllocator_Release :: "64 word \<Rightarrow> SEIDAllocator \<Rightarrow> SEIDAllocator" where
  "SEIDAllocator_Release seid s = s\<lparr>usedSEIDs := usedSEIDs s - {seid}\<rparr>"

definition SEIDAllocator_AllocatedCount :: "SEIDAllocator \<Rightarrow> nat" where
  "SEIDAllocator_AllocatedCount s = card (usedSEIDs s)"

text \<open>\<open>n\<close> calls of \<^verbatim>\<open>Allocate\<close> in a row, with their results in call order.\<close>

fun SEIDAllocator_Allocate_times ::
  "(nat \<Rightarrow> 64 word) \<Rightarrow> nat \<Rightarrow> SEIDAllocator \<Rightarrow> (error + 64 word) list \<times> SEIDAllocator" where
  "SEIDAllocator_Allocate_times rnd 0 s = ([], s)"
| "SEIDAllocator_Allocate_times rnd (Suc n) s =
     (case SEIDAllocator_Allocate rnd s of (r, s1) \<Rightarrow>
        (case SEIDAllocator_Allocate_times rnd n s1 of (rs, s2) \<Rightarrow> (r # rs, s2)))"

text \<open>A random source that always draws 0 (used where the draws do not matter).\<close>

definition zero_draws :: "nat \<Rightarrow> 64 word" where
  "zero_draws k = 0"

section \<open>UEIPPool (\<^verbatim>\<open>internal/session\<close>, the UE IP pool file)\<close>

text \<open>
  The pool is documented and configured as an IPv4 pool. \<^verbatim>\<open>net.ParseCIDR\<close> returns an
  IPv4 network as four octets, so an address (\<^verbatim>\<open>net.IP\<close>) is a \<open>32 word\<close>, read
  big-endian. The parsed CIDR \<^verbatim>\<open>a.b.c.d/ones\<close> is the pair of the address and the
  prefix length; \<^verbatim>\<open>ParseCIDR\<close> rejects a prefix length above 32 and masks the address
  to the network address. \<^verbatim>\<open>allocated map[string]bool\<close> is keyed by the dotted form of
  the address, which determines the four octets, and only ever stores \<^verbatim>\<open>true\<close>: it is
  the set of held addresses.
\<close>

record UEIPPool =
  cidr_IP :: "32 word"
  cidr_ones :: nat
  nextIP :: "32 word"
  allocated :: "32 word set"

text \<open>\<^verbatim>\<open>net.CIDRMask(ones, 32)\<close>: the top \<open>ones\<close> bits set.\<close>

definition CIDRMask :: "nat \<Rightarrow> 32 word" where
  "CIDRMask ones = NOT (mask (32 - ones))"

text \<open>\<^verbatim>\<open>IPNet.Contains\<close>: the address and the network agree under the mask.\<close>

definition Contains :: "UEIPPool \<Rightarrow> 32 word \<Rightarrow> bool" where
  "Contains p ip =
     (cidr_IP p AND CIDRMask (cidr_ones p) = ip AND CIDRMask (cidr_ones p))"

text \<open>
  \<^verbatim>\<open>incrementIP\<close> adds one to the last octet and carries into the octets before it
  while an octet wraps to 0. \<open>incrementIP_octets\<close> is that loop on the octets, last
  octet first; on the 32-bit value it is \<open>+ 1\<close> with wrap-around
  (\<open>incrementIP_octets_value\<close> below).
\<close>

fun incrementIP_octets :: "8 word list \<Rightarrow> 8 word list" where
  "incrementIP_octets [] = []"
| "incrementIP_octets (b # bs) =
     (if b + 1 \<noteq> 0 then (b + 1) # bs else (b + 1) # incrementIP_octets bs)"

definition incrementIP :: "32 word \<Rightarrow> 32 word" where
  "incrementIP ip = ip + 1"

text \<open>The value of four octets, last octet first.\<close>

fun octets_value :: "8 word list \<Rightarrow> 32 word" where
  "octets_value [] = 0"
| "octets_value (b # bs) = ucast b + push_bit 8 (octets_value bs)"

definition NewUEIPPool :: "32 word \<Rightarrow> nat \<Rightarrow> error + UEIPPool" where
  "NewUEIPPool ip ones =
     (if 32 < ones then Inl InvalidCIDR
      else Inr \<lparr>cidr_IP = ip AND CIDRMask ones,
                cidr_ones = ones,
                nextIP = incrementIP (ip AND CIDRMask ones),
                allocated = {}\<rparr>)"

text \<open>
  The block that \<^verbatim>\<open>Allocate\<close> runs three times: when the cursor has left the CIDR,
  put it back on the network address plus one.
\<close>

definition wrap_cursor :: "UEIPPool \<Rightarrow> UEIPPool" where
  "wrap_cursor p =
     (if \<not> Contains p (nextIP p) then p\<lparr>nextIP := incrementIP (cidr_IP p)\<rparr> else p)"

text \<open>
  The \<^verbatim>\<open>for { ... }\<close> loop of \<^verbatim>\<open>Allocate\<close>. \<^verbatim>\<open>totalIPs\<close> and \<^verbatim>\<open>checked\<close>
  are Go \<^verbatim>\<open>int\<close>s (64 bits; \<^verbatim>\<open>1 << (32 - ones)\<close> is at most \<open>2^32\<close>).
\<close>

function scan ::
  "32 word \<Rightarrow> int \<Rightarrow> int \<Rightarrow> UEIPPool \<Rightarrow> (error + 32 word) \<times> UEIPPool" where
  "scan startIP totalIPs checked p =
     (if nextIP p \<notin> allocated p then
        (let p1 = p\<lparr>allocated := insert (nextIP p) (allocated p)\<rparr>;
             result = nextIP p1;
             p2 = wrap_cursor (p1\<lparr>nextIP := incrementIP (nextIP p1)\<rparr>)
         in (Inr result, p2))
      else
        (let p1 = wrap_cursor (p\<lparr>nextIP := incrementIP (nextIP p)\<rparr>);
             checked1 = checked + 1
         in if checked1 \<ge> totalIPs - 1 \<or> nextIP p1 = startIP
            then (Inl (PoolExhausted (card (allocated p1))), p1)
            else scan startIP totalIPs checked1 p1))"
  by pat_completeness auto
termination
  by (relation "measure (\<lambda>(startIP, totalIPs, checked, p). nat (totalIPs - 1 - checked))") auto

declare scan.simps [simp del]

definition UEIPPool_Allocate :: "UEIPPool \<Rightarrow> (error + 32 word) \<times> UEIPPool" where
  "UEIPPool_Allocate p =
     (let p0 = wrap_cursor p;
          startIP = nextIP p0;
          totalIPs = 2 ^ (32 - cidr_ones p0)
      in scan startIP totalIPs 0 p0)"

definition UEIPPool_Release :: "32 word \<Rightarrow> UEIPPool \<Rightarrow> UEIPPool" where
  "UEIPPool_Release ip p = p\<lparr>allocated := allocated p - {ip}\<rparr>"

definition UEIPPool_AllocatedCount :: "UEIPPool \<Rightarrow> int" where
  "UEIPPool_AllocatedCount p = int (card (allocated p))"

definition Available :: "UEIPPool \<Rightarrow> int" where
  "Available p =
     (let total = 2 ^ (32 - cidr_ones p);
          avail = total - int (card (allocated p)) - 2
      in if avail < 0 then 0 else avail)"

text \<open>\<open>n\<close> calls of \<^verbatim>\<open>Allocate\<close> in a row, with their results in call order.\<close>

fun UEIPPool_Allocate_times ::
  "nat \<Rightarrow> UEIPPool \<Rightarrow> (error + 32 word) list \<times> UEIPPool" where
  "UEIPPool_Allocate_times 0 p = ([], p)"
| "UEIPPool_Allocate_times (Suc n) p =
     (case UEIPPool_Allocate p of (r, p1) \<Rightarrow>
        (case UEIPPool_Allocate_times n p1 of (rs, p2) \<Rightarrow> (r # rs, p2)))"

text \<open>Dotted notation, for the examples.\<close>

definition ip4 :: "nat \<Rightarrow> nat \<Rightarrow> nat \<Rightarrow> nat \<Rightarrow> 32 word" where
  "ip4 a b c d = of_nat (((a * 256 + b) * 256 + c) * 256 + d)"

section \<open>UEIPPool: vocabulary of the properties\<close>

text \<open>
  \<open>capacity p\<close> is the number of addresses of the block other than the network address,
  and \<open>addr p j\<close> the \<open>j\<close>-th of them (from 0). \<open>block_ok\<close> says the prefix length is
  between 1 and 31 and the network address is masked, as \<^verbatim>\<open>ParseCIDR\<close> returns it;
  \<open>pool_inv\<close> adds that the cursor is inside the block and off the network address, which
  \<^verbatim>\<open>NewUEIPPool\<close> establishes and \<^verbatim>\<open>Allocate\<close> and \<^verbatim>\<open>Release\<close> keep.
  \<open>advance\<close> is the cursor step that \<^verbatim>\<open>Allocate\<close> takes in both branches of its loop.
\<close>

definition addr :: "UEIPPool \<Rightarrow> nat \<Rightarrow> 32 word" where
  "addr p j = cidr_IP p + 1 + of_nat j"

definition capacity :: "UEIPPool \<Rightarrow> nat" where
  "capacity p = 2 ^ (32 - cidr_ones p) - 1"

definition pool_inv :: "UEIPPool \<Rightarrow> bool" where
  "pool_inv p \<longleftrightarrow>
     1 \<le> cidr_ones p \<and> cidr_ones p \<le> 31 \<and>
     cidr_IP p AND CIDRMask (cidr_ones p) = cidr_IP p \<and>
     Contains p (nextIP p) \<and> nextIP p \<noteq> cidr_IP p"

definition advance :: "UEIPPool \<Rightarrow> UEIPPool" where
  "advance p = wrap_cursor (p\<lparr>nextIP := incrementIP (nextIP p)\<rparr>)"

definition block_ok :: "UEIPPool \<Rightarrow> bool" where
  "block_ok p \<longleftrightarrow> 1 \<le> cidr_ones p \<and> cidr_ones p \<le> 31 \<and>
     cidr_IP p AND CIDRMask (cidr_ones p) = cidr_IP p"


text \<open>
  The pools of the examples, as \<^verbatim>\<open>NewUEIPPool\<close> returns them: \<^verbatim>\<open>10.60.0.0/30\<close> (the
  repository's own exhaustion test; \<open>pool_30_full\<close> is that pool after three allocations),
  \<^verbatim>\<open>10.0.0.1/32\<close> and \<^verbatim>\<open>0.0.0.0/0\<close>.
\<close>

definition pool_30 :: UEIPPool where
  "pool_30 = \<lparr>cidr_IP = ip4 10 60 0 0, cidr_ones = 30, nextIP = ip4 10 60 0 1, allocated = {}\<rparr>"

definition pool_30_full :: UEIPPool where
  "pool_30_full = \<lparr>cidr_IP = ip4 10 60 0 0, cidr_ones = 30, nextIP = ip4 10 60 0 1,
       allocated = {ip4 10 60 0 3, ip4 10 60 0 2, ip4 10 60 0 1}\<rparr>"

definition pool_32 :: UEIPPool where
  "pool_32 = \<lparr>cidr_IP = ip4 10 0 0 1, cidr_ones = 32, nextIP = ip4 10 0 0 2, allocated = {}\<rparr>"

definition pool_0 :: UEIPPool where
  "pool_0 = \<lparr>cidr_IP = 0, cidr_ones = 0, nextIP = 1, allocated = {}\<rparr>"

section \<open>TransactionTracker (\<^verbatim>\<open>internal/network/transaction.go\<close>)\<close>

text \<open>
  Times (\<^verbatim>\<open>time.Time\<close>, \<^verbatim>\<open>time.Duration\<close>) are integers of nanoseconds; the
  caller of each operation supplies what \<^verbatim>\<open>time.Now()\<close> returns there. Datagrams are
  lists of octets.
\<close>

type_synonym bytes = "8 word list"

datatype tx_error = Timeout int | Cancelled | ContextDone

record TransactionResult =
  res_SeqNum :: "32 word"
  Response :: bytes
  ResponseTime :: int
  Error :: "tx_error option"

text \<open>
  A \<^verbatim>\<open>*PendingTransaction\<close> is a reference into a store of transaction objects
  (\<open>heap\<close>): \<^verbatim>\<open>checkTimeouts\<close> collects references under the lock and
  \<^verbatim>\<open>handleTimeout\<close> works on a reference after the lock was released in between.
  \<^verbatim>\<open>ResultCh\<close> is the reference of the transaction's channel; \<open>chans\<close> holds, for
  each channel, everything sent on it so far, in order. A channel has a buffer of one: a
  second send on a channel whose first value was not received would block its goroutine,
  so "at most one value per channel" is also "no send ever blocks".
\<close>

record PendingTransaction =
  SeqNum :: "32 word"
  RequestData :: bytes
  SentAt :: int
  RetryCount :: int
  ResultCh :: nat

text \<open>
  \<open>retransmitted\<close> is the list of datagrams that the tracker handed to
  \<^verbatim>\<open>sender.Send\<close> (its retransmissions; a send error is only logged there).
\<close>

record TransactionTracker =
  pending :: "32 word \<rightharpoonup> nat"
  heap :: "nat \<Rightarrow> PendingTransaction"
  next_ref :: nat
  chans :: "nat \<Rightarrow> TransactionResult list"
  timeout :: int
  maxRetries :: int
  retransmitted :: "bytes list"

text \<open>
  \<^verbatim>\<open>time.Duration(timeoutMs) * time.Millisecond\<close> is a product of two \<^verbatim>\<open>int64\<close>
  values and wraps around: \<open>int64_mul\<close>. \<^verbatim>\<open>timeoutMs\<close> and \<^verbatim>\<open>maxRetries\<close> are Go
  \<^verbatim>\<open>int\<close>s, read here as their integer values. \<^verbatim>\<open>RetryCount\<close> is only incremented
  while it is below \<^verbatim>\<open>maxRetries\<close>, so that increment cannot overflow.
\<close>

definition int64_mul :: "int \<Rightarrow> int \<Rightarrow> int" where
  "int64_mul a b = sint (word_of_int a * word_of_int b :: 64 word)"

definition NewTransactionTracker :: "int \<Rightarrow> int \<Rightarrow> TransactionTracker" where
  "NewTransactionTracker timeoutMs maxRetries' =
     \<lparr>pending = Map.empty,
      heap = (\<lambda>r. \<lparr>SeqNum = 0, RequestData = [], SentAt = 0, RetryCount = 0, ResultCh = r\<rparr>),
      next_ref = 0,
      chans = (\<lambda>c. []),
      timeout = int64_mul timeoutMs 1000000,
      maxRetries = maxRetries',
      retransmitted = []\<rparr>"

text \<open>\<^verbatim>\<open>ch <- v\<close>\<close>

definition chan_send :: "nat \<Rightarrow> TransactionResult \<Rightarrow> TransactionTracker \<Rightarrow> TransactionTracker" where
  "chan_send c v t = t\<lparr>chans := (chans t)(c := chans t c @ [v])\<rparr>"

text \<open>
  \<^verbatim>\<open>Track\<close> makes a new channel and a new transaction object, stores the object under
  the sequence number (replacing what was there) and returns the channel.
\<close>

definition Track :: "32 word \<Rightarrow> bytes \<Rightarrow> int \<Rightarrow> TransactionTracker \<Rightarrow> nat \<times> TransactionTracker" where
  "Track seqNum requestData now t =
     (let r = next_ref t;
          tx = \<lparr>SeqNum = seqNum, RequestData = requestData, SentAt = now, RetryCount = 0,
                ResultCh = r\<rparr>
      in (r, t\<lparr>pending := (pending t)(seqNum \<mapsto> r),
               heap := (heap t)(r := tx),
               chans := (chans t)(r := []),
               next_ref := r + 1\<rparr>))"

definition Resolve :: "32 word \<Rightarrow> bytes \<Rightarrow> int \<Rightarrow> TransactionTracker \<Rightarrow> TransactionTracker" where
  "Resolve seqNum responseData now t =
     (case pending t seqNum of
        None \<Rightarrow> t
      | Some r \<Rightarrow>
          (let tx = heap t r;
               t1 = t\<lparr>pending := (pending t)(seqNum := None)\<rparr>
           in chan_send (ResultCh tx)
                \<lparr>res_SeqNum = seqNum, Response = responseData,
                 ResponseTime = now - SentAt tx, Error = None\<rparr> t1))"

definition handleTimeout :: "int \<Rightarrow> nat \<Rightarrow> TransactionTracker \<Rightarrow> TransactionTracker" where
  "handleTimeout now r t =
     (let tx = heap t r in
      if pending t (SeqNum tx) = None then t
      else if RetryCount tx < maxRetries t then
        t\<lparr>heap := (heap t)(r := tx\<lparr>RetryCount := RetryCount tx + 1, SentAt := now\<rparr>),
          retransmitted := retransmitted t @ [RequestData tx]\<rparr>
      else
        chan_send (ResultCh tx)
          \<lparr>res_SeqNum = SeqNum tx, Response = [], ResponseTime = 0,
           Error = Some (Timeout (maxRetries t))\<rparr>
          (t\<lparr>pending := (pending t)(SeqNum tx := None)\<rparr>))"

text \<open>
  \<^verbatim>\<open>checkTimeouts\<close>: the first loop ranges over the map in an order Go leaves open;
  \<open>order\<close> is the order in which this sweep visits the sequence numbers. It collects
  the references of the transactions older than the timeout; the second loop handles
  them (\<open>now'\<close> is the time \<^verbatim>\<open>handleTimeout\<close> reads).
\<close>

definition timedOut :: "int \<Rightarrow> 32 word list \<Rightarrow> TransactionTracker \<Rightarrow> nat list" where
  "timedOut now order t =
     concat (map (\<lambda>seqNum. case pending t seqNum of
                               None \<Rightarrow> []
                             | Some r \<Rightarrow> (if now - SentAt (heap t r) > timeout t then [r] else []))
                 order)"

definition checkTimeouts ::
  "int \<Rightarrow> int \<Rightarrow> 32 word list \<Rightarrow> TransactionTracker \<Rightarrow> TransactionTracker" where
  "checkTimeouts now now' order t = fold (handleTimeout now') (timedOut now order t) t"

text \<open>\<^verbatim>\<open>CancelAll\<close>, ranging over the map in the order \<open>order\<close>.\<close>

definition cancel_one :: "32 word \<Rightarrow> TransactionTracker \<Rightarrow> TransactionTracker" where
  "cancel_one seqNum t =
     (case pending t seqNum of
        None \<Rightarrow> t
      | Some r \<Rightarrow>
          (chan_send (ResultCh (heap t r))
             \<lparr>res_SeqNum = seqNum, Response = [], ResponseTime = 0, Error = Some Cancelled\<rparr> t)
          \<lparr>pending := (pending t)(seqNum := None)\<rparr>)"

definition CancelAll :: "32 word list \<Rightarrow> TransactionTracker \<Rightarrow> TransactionTracker" where
  "CancelAll order t = fold cancel_one order t"

definition PendingCount :: "TransactionTracker \<Rightarrow> nat" where
  "PendingCount t = card (dom (pending t))"

text \<open>
  The tracker is used by three goroutines; every access to \<open>pending\<close> is under the
  tracker's lock, and the channel send or datagram send that follows an unlock touches
  only the transaction that the critical section decided on. A run of the tracker is
  therefore a sequence of these events, each atomic. \<open>EvHandleTimeout\<close> on its own is
  the second loop of a sweep reaching a reference after other goroutines have run: the
  race of \<^verbatim>\<open>Resolve\<close> with the sweep. (A reference that \<^verbatim>\<open>Track\<close> has not returned
  yet cannot be handled; such an event does nothing.)
\<close>

datatype event =
    EvTrack "32 word" bytes int
  | EvResolve "32 word" bytes int
  | EvHandleTimeout int nat
  | EvCheckTimeouts int int "32 word list"
  | EvCancelAll "32 word list"

fun apply_event :: "event \<Rightarrow> TransactionTracker \<Rightarrow> TransactionTracker" where
  "apply_event (EvTrack seqNum d now) t = snd (Track seqNum d now t)"
| "apply_event (EvResolve seqNum d now) t = Resolve seqNum d now t"
| "apply_event (EvHandleTimeout now r) t = (if r < next_ref t then handleTimeout now r t else t)"
| "apply_event (EvCheckTimeouts now now' order) t = checkTimeouts now now' order t"
| "apply_event (EvCancelAll order) t = CancelAll order t"

definition run :: "event list \<Rightarrow> TransactionTracker \<Rightarrow> TransactionTracker" where
  "run es t = fold apply_event es t"

text \<open>The sequence numbers that a run registers, in order.\<close>

fun tracked_seqs :: "event list \<Rightarrow> 32 word list" where
  "tracked_seqs [] = []"
| "tracked_seqs (EvTrack seqNum d now # es) = seqNum # tracked_seqs es"
| "tracked_seqs (e # es) = tracked_seqs es"

text \<open>
  What a result on a channel can be: the response that \<^verbatim>\<open>Resolve\<close> passes on, the
  timeout failure, or the cancellation.
\<close>

definition from_Resolve_timeout_or_CancelAll :: "TransactionTracker \<Rightarrow> TransactionResult \<Rightarrow> bool" where
  "from_Resolve_timeout_or_CancelAll t v \<longleftrightarrow>
     Error v = None \<or> Error v = Some (Timeout (maxRetries t)) \<or> Error v = Some Cancelled"

text \<open>\<open>k\<close> calls of \<^verbatim>\<open>handleTimeout\<close> on the same reference, at the given times.\<close>

definition handleTimeouts :: "int list \<Rightarrow> nat \<Rightarrow> TransactionTracker \<Rightarrow> TransactionTracker" where
  "handleTimeouts nows r t = fold (\<lambda>now. handleTimeout now r) nows t"

definition timeout_result :: "32 word \<Rightarrow> int \<Rightarrow> TransactionResult" where
  "timeout_result seqNum retries =
     \<lparr>res_SeqNum = seqNum, Response = [], ResponseTime = 0, Error = Some (Timeout retries)\<rparr>"

text \<open>
  \<open>is_pending t r\<close>: the transaction object \<open>r\<close> is the one stored in the map under
  its sequence number. \<open>tracker_inv\<close> is the invariant of the runs in which no sequence
  number is registered twice: the map points at allocated objects under their own
  sequence numbers, each object has its own channel, objects have different sequence
  numbers, and a channel holds nothing while its transaction is pending and exactly one
  result (of the three kinds) once it is not.
\<close>

definition is_pending :: "TransactionTracker \<Rightarrow> nat \<Rightarrow> bool" where
  "is_pending t r \<longleftrightarrow> pending t (SeqNum (heap t r)) = Some r"

definition used_seqs :: "TransactionTracker \<Rightarrow> 32 word set" where
  "used_seqs t = (\<lambda>r. SeqNum (heap t r)) ` {..<next_ref t}"

definition map_ok :: "TransactionTracker \<Rightarrow> bool" where
  "map_ok t \<longleftrightarrow> (\<forall>s r. pending t s = Some r \<longrightarrow> r < next_ref t \<and> SeqNum (heap t r) = s)"

definition chan_ok :: "TransactionTracker \<Rightarrow> bool" where
  "chan_ok t \<longleftrightarrow> (\<forall>r<next_ref t. ResultCh (heap t r) = r)"

definition seqs_distinct :: "TransactionTracker \<Rightarrow> bool" where
  "seqs_distinct t \<longleftrightarrow>
     (\<forall>r<next_ref t. \<forall>r'<next_ref t. SeqNum (heap t r) = SeqNum (heap t r') \<longrightarrow> r = r')"

definition results_ok :: "TransactionTracker \<Rightarrow> bool" where
  "results_ok t \<longleftrightarrow>
     (\<forall>r<next_ref t.
        (is_pending t r \<longrightarrow> chans t r = []) \<and>
        (\<not> is_pending t r \<longrightarrow>
           (\<exists>v. chans t r = [v] \<and> from_Resolve_timeout_or_CancelAll t v)))"

definition tracker_inv :: "TransactionTracker \<Rightarrow> bool" where
  "tracker_inv t \<longleftrightarrow> map_ok t \<and> chan_ok t \<and> seqs_distinct t \<and> results_ok t"

text \<open>
  The step that \<^verbatim>\<open>Resolve\<close>, the last \<^verbatim>\<open>handleTimeout\<close> and \<^verbatim>\<open>CancelAll\<close> share:
  take the transaction out of the map and send one result on its channel.
\<close>

definition fulfil :: "nat \<Rightarrow> TransactionResult \<Rightarrow> TransactionTracker \<Rightarrow> TransactionTracker" where
  "fulfil r v t =
     t\<lparr>pending := (pending t)(SeqNum (heap t r) := None),
       chans := (chans t)(r := chans t r @ [v])\<rparr>"

text \<open>The retransmission branch of \<^verbatim>\<open>handleTimeout\<close>.\<close>

definition retry :: "int \<Rightarrow> nat \<Rightarrow> TransactionTracker \<Rightarrow> TransactionTracker" where
  "retry now r t =
     t\<lparr>heap := (heap t)(r := (heap t r)\<lparr>RetryCount := RetryCount (heap t r) + 1, SentAt := now\<rparr>),
       retransmitted := retransmitted t @ [RequestData (heap t r)]\<rparr>"

text \<open>
  Runs for the examples, on a tracker with a timeout of 5000 ms. \<open>race_run\<close>: a
  transaction is registered, retransmitted once by a sweep, resolved, and then reached
  by a \<^verbatim>\<open>handleTimeout\<close> of a sweep that had collected it before; a second one is
  registered after. \<open>reuse_run\<close> registers sequence number 5 twice and cancels.
  \<open>stale_run\<close> (with \<^verbatim>\<open>maxRetries = 0\<close>) registers 5 again after it was resolved, and
  then a \<^verbatim>\<open>handleTimeout\<close> for the first transaction runs.
\<close>

definition race_run :: "event list" where
  "race_run =
     [EvTrack 5 [1] 0,
      EvCheckTimeouts 6000000000 6000000001 [5],
      EvResolve 5 [9] 7000000000,
      EvHandleTimeout 7000000001 0,
      EvTrack 6 [2] 8000000000]"

definition reuse_run :: "event list" where
  "reuse_run = [EvTrack 5 [1] 0, EvTrack 5 [2] 1, EvCancelAll [5]]"

definition stale_run :: "event list" where
  "stale_run = [EvTrack 5 [1] 0, EvResolve 5 [9] 1, EvTrack 5 [2] 2, EvHandleTimeout 3 0]"


section \<open>PFCP messages and the message library\<close>

text \<open>
  The messages and information elements are those of the library \<^verbatim>\<open>go-pfcp\<close>, which
  is outside the repository. An \<^verbatim>\<open>ie.IE\<close> has a type, a payload and, for a grouped
  element, child elements. A message struct has a header and one field for each kind of
  element; the model keeps the fields that the repository's code reads or writes and
  the remaining elements as a list. A \<^verbatim>\<open>net.IP\<close> is an IPv4 or an IPv6 address
  (\<^verbatim>\<open>To4() != nil\<close> holds of the first kind), \<^verbatim>\<open>nil\<close> is \<open>None\<close>.
\<close>

datatype IE = IE (Type: "16 word") (Payload: bytes) (ChildIEs: "IE list")

datatype net_IP = IPv4 "32 word" | IPv6 "128 word"

record Header =
  hdr_SEID :: "64 word"
  hdr_SequenceNumber :: "32 word"

record AssociationSetupRequest =
  asr_Header :: Header
  asr_NodeID :: "IE option"
  asr_IEs :: "IE list"

record SessionEstablishmentRequest =
  ser_Header :: Header
  ser_NodeID :: "IE option"
  ser_CPFSEID :: "IE option"
  ser_CreatePDR :: "IE list"
  ser_IEs :: "IE list"

record SessionModificationRequest =
  smr_Header :: Header
  smr_CreatePDR :: "IE list"
  smr_UpdatePDR :: "IE list"
  smr_IEs :: "IE list"

record SessionDeletionRequest =
  sdr_Header :: Header
  sdr_IEs :: "IE list"

record HeartbeatRequest =
  hbr_Header :: Header
  hbr_IEs :: "IE list"

record SessionEstablishmentResponse =
  rsp_Header :: Header
  rsp_Cause :: "IE option"
  rsp_UPFSEID :: "IE option"
  rsp_IEs :: "IE list"

text \<open>
  \<^verbatim>\<open>message.Message\<close> is the interface of all message structs; the type switch on
  \<^verbatim>\<open>msg.MessageType()\<close> followed by the type assertion is a case distinction here, so
  the \<^verbatim>\<open>!ok\<close> branch of each assertion has no counterpart.
\<close>

datatype Message =
    MsgAssociationSetupRequest AssociationSetupRequest
  | MsgSessionEstablishmentRequest SessionEstablishmentRequest
  | MsgSessionModificationRequest SessionModificationRequest
  | MsgSessionDeletionRequest SessionDeletionRequest
  | MsgHeartbeatRequest HeartbeatRequest
  | MsgSessionEstablishmentResponse SessionEstablishmentResponse
  | MsgOther "8 word" Header

record FSEIDFields =
  fseid_SEID :: "64 word"
  fseid_IPv4Address :: "net_IP option"
  fseid_IPv6Address :: "net_IP option"

record UEIPAddressFields =
  ueip_Flags :: "8 word"
  ueip_IPv6Address :: "net_IP option"
  ueip_IPv6PrefixDelegationBits :: "8 word"
  ueip_IPv6PrefixLength :: "8 word"

text \<open>
  The functions of the library (and \<^verbatim>\<open>net.IP.String\<close>) that the code calls are
  parameters of the model: every definition below takes them as the record \<open>L\<close>, and
  the theorems hold for every such record. A parser returns \<open>None\<close> where the library
  returns an error.
\<close>

record pfcp_lib =
  FSEID :: "IE \<Rightarrow> FSEIDFields option"
  Cause :: "IE \<Rightarrow> 8 word option"
  UEIPAddress :: "IE \<Rightarrow> UEIPAddressFields option"
  NewFSEID :: "64 word \<Rightarrow> net_IP option \<Rightarrow> net_IP option \<Rightarrow> IE"
  NewNodeID :: "string \<Rightarrow> string \<Rightarrow> string \<Rightarrow> IE"
  NewUEIPAddress :: "8 word \<Rightarrow> string \<Rightarrow> string \<Rightarrow> 8 word \<Rightarrow> 8 word \<Rightarrow> IE"
  NewCreatePDR :: "IE list \<Rightarrow> IE"
  NewPDI :: "IE list \<Rightarrow> IE"
  Marshal :: "Message \<Rightarrow> bytes option"
  Parse :: "bytes \<Rightarrow> Message option"
  IP_String :: "net_IP option \<Rightarrow> string"

text \<open>The element types and the cause value of 3GPP TS 29.244 that the code names.\<close>

definition ie_PDI :: "16 word" where "ie_PDI = 2"
definition ie_Cause :: "16 word" where "ie_Cause = 19"
definition ie_UEIPAddress :: "16 word" where "ie_UEIPAddress = 93"
definition CauseRequestAccepted :: "8 word" where "CauseRequestAccepted = 1"

section \<open>Modifier (\<^verbatim>\<open>internal/pfcp/modifier.go\<close>)\<close>

datatype extract_error = NoCPFSEID | ParseCPFSEIDFailed | NoUPFSEID | ParseUPFSEIDFailed

text \<open>
  The errors that the handlers of the session manager return, one constructor for each
  \<^verbatim>\<open>fmt.Errorf\<close> (the message texts differ by message kind only).
\<close>

datatype handler_error =
    AllocateSEIDFailed error
  | AllocateUEIPFailed error
  | ModifyFailed
  | EncodeFailed
  | SendFailed
  | TransactionFailed tx_error
  | DecodeResponseFailed
  | UnexpectedResponseType
  | Rejected "8 word"
  | ExtractRemoteSEIDFailed extract_error
  | NoSessionFound "64 word"
  | ContextCancelled

record Modifier =
  smfIP :: "net_IP option"
  stripIPv6 :: bool

definition NewModifier :: "net_IP option \<Rightarrow> bool \<Rightarrow> Modifier" where
  "NewModifier ip strip = \<lparr>smfIP = ip, stripIPv6 = strip\<rparr>"

definition is_To4 :: "net_IP \<Rightarrow> bool" where
  "is_To4 ip = (case ip of IPv4 a \<Rightarrow> True | IPv6 a \<Rightarrow> False)"

text \<open>The Node ID that both \<^verbatim>\<open>ModifyAssociationSetup\<close> and \<^verbatim>\<open>ModifySessionEstablishment\<close> write.\<close>

definition update_NodeID :: "pfcp_lib \<Rightarrow> Modifier \<Rightarrow> IE option \<Rightarrow> IE option" where
  "update_NodeID L m nodeID =
     (case (smfIP m, nodeID) of
        (Some ip, Some old) \<Rightarrow>
          (if is_To4 ip then Some (NewNodeID L (IP_String L (Some ip)) [] [])
           else Some (NewNodeID L [] (IP_String L (Some ip)) []))
      | _ \<Rightarrow> nodeID)"

definition ModifyAssociationSetup ::
  "pfcp_lib \<Rightarrow> Modifier \<Rightarrow> AssociationSetupRequest \<Rightarrow> 32 word \<Rightarrow>
     handler_error option \<times> AssociationSetupRequest" where
  "ModifyAssociationSetup L m msg seqNum =
     (None, msg\<lparr>asr_Header := (asr_Header msg)\<lparr>hdr_SequenceNumber := seqNum\<rparr>,
                asr_NodeID := update_NodeID L m (asr_NodeID msg)\<rparr>)"

definition createModifiedUEIPIE :: "pfcp_lib \<Rightarrow> Modifier \<Rightarrow> IE \<Rightarrow> net_IP option \<Rightarrow> IE option" where
  "createModifiedUEIPIE L m original newUEIP =
     (case UEIPAddress L original of
        None \<Rightarrow> None
      | Some ueIPFields \<Rightarrow>
          (let flags = ueip_Flags ueIPFields in
           if stripIPv6 m then
             Some (NewUEIPAddress L
                     ((((flags AND NOT 1) OR 2) AND NOT 8) AND NOT 64)
                     (IP_String L newUEIP) [] 0 0)
           else if flags AND 2 \<noteq> 0 then
             (if flags AND 1 \<noteq> 0 \<and> ueip_IPv6Address ueIPFields \<noteq> None then
                Some (NewUEIPAddress L flags (IP_String L newUEIP)
                        (IP_String L (ueip_IPv6Address ueIPFields))
                        (ueip_IPv6PrefixDelegationBits ueIPFields)
                        (ueip_IPv6PrefixLength ueIPFields))
              else Some (NewUEIPAddress L flags (IP_String L newUEIP) [] 0 0))
           else None))"

text \<open>
  \<^verbatim>\<open>modifyUEIPInPDI\<close> and \<^verbatim>\<open>modifyUEIPInPDR\<close>: the loop over the children builds
  \<^verbatim>\<open>newChildren\<close> (a \<open>map\<close>) and sets \<^verbatim>\<open>modified\<close> when a child was replaced.
\<close>

definition modifyUEIPInPDI :: "pfcp_lib \<Rightarrow> Modifier \<Rightarrow> IE \<Rightarrow> net_IP option \<Rightarrow> IE \<times> bool" where
  "modifyUEIPInPDI L m pdi newUEIP =
     (let childIEs = ChildIEs pdi in
      if childIEs = [] then (pdi, False)
      else
        (let newChildren =
               map (\<lambda>child. if Type child = ie_UEIPAddress
                             then (case createModifiedUEIPIE L m child newUEIP of
                                     Some newIE \<Rightarrow> newIE | None \<Rightarrow> child)
                             else child) childIEs;
             modified =
               list_ex (\<lambda>child. Type child = ie_UEIPAddress \<and>
                                 createModifiedUEIPIE L m child newUEIP \<noteq> None) childIEs
         in if \<not> modified then (pdi, False) else (NewPDI L newChildren, True)))"

definition modifyUEIPInPDR :: "pfcp_lib \<Rightarrow> Modifier \<Rightarrow> IE \<Rightarrow> net_IP option \<Rightarrow> IE option" where
  "modifyUEIPInPDR L m pdr newUEIP =
     (let childIEs = ChildIEs pdr in
      if childIEs = [] then None
      else
        (let newChildren =
               map (\<lambda>child. if Type child = ie_PDI
                             then (case modifyUEIPInPDI L m child newUEIP of
                                     (modifiedPDI, pdiModified) \<Rightarrow>
                                       if pdiModified then modifiedPDI else child)
                             else child) childIEs;
             modified =
               list_ex (\<lambda>child. Type child = ie_PDI \<and> snd (modifyUEIPInPDI L m child newUEIP))
                 childIEs
         in if \<not> modified then None
            else (case NewCreatePDR L newChildren of
                    IE ty payload children \<Rightarrow> Some (IE (Type pdr) payload children))))"

text \<open>
  \<^verbatim>\<open>modifyUEIPInCreatePDRs\<close> replaces the elements that were modified and always
  returns \<^verbatim>\<open>nil\<close> (\<^verbatim>\<open>modifyUEIPInPDR\<close> never returns an error either).
\<close>

definition modifyUEIPInCreatePDRs ::
  "pfcp_lib \<Rightarrow> Modifier \<Rightarrow> IE list \<Rightarrow> net_IP option \<Rightarrow> handler_error option \<times> IE list" where
  "modifyUEIPInCreatePDRs L m pdrs newUEIP =
     (None, map (\<lambda>pdr. case modifyUEIPInPDR L m pdr newUEIP of
                          Some modified \<Rightarrow> modified | None \<Rightarrow> pdr) pdrs)"

definition ModifySessionEstablishment ::
  "pfcp_lib \<Rightarrow> Modifier \<Rightarrow> SessionEstablishmentRequest \<Rightarrow> 64 word \<Rightarrow> net_IP option \<Rightarrow> 32 word \<Rightarrow>
     handler_error option \<times> SessionEstablishmentRequest" where
  "ModifySessionEstablishment L m msg localSEID ueIP seqNum =
     (let msg1 = msg\<lparr>ser_Header := (ser_Header msg)\<lparr>hdr_SEID := 0, hdr_SequenceNumber := seqNum\<rparr>\<rparr>;
          msg2 =
            (case ser_CPFSEID msg1 of
               None \<Rightarrow> msg1
             | Some old \<Rightarrow>
                 (let (v4, v6) =
                        (case smfIP m of
                           Some ip \<Rightarrow> (if is_To4 ip then (Some ip, None) else (None, Some ip))
                         | None \<Rightarrow>
                             (case FSEID L old of
                                Some fseid \<Rightarrow> (fseid_IPv4Address fseid, fseid_IPv6Address fseid)
                              | None \<Rightarrow> (None, None)))
                  in msg1\<lparr>ser_CPFSEID := Some (NewFSEID L localSEID v4 v6)\<rparr>))
      in case modifyUEIPInCreatePDRs L m (ser_CreatePDR msg2) ueIP of
           (Some err, pdrs) \<Rightarrow> (Some ModifyFailed, msg2\<lparr>ser_CreatePDR := pdrs\<rparr>)
         | (None, pdrs) \<Rightarrow>
             (None, msg2\<lparr>ser_CreatePDR := pdrs,
                          ser_NodeID := update_NodeID L m (ser_NodeID msg2)\<rparr>))"

definition ModifySessionModification ::
  "pfcp_lib \<Rightarrow> Modifier \<Rightarrow> SessionModificationRequest \<Rightarrow> 64 word \<Rightarrow> net_IP option \<Rightarrow> 32 word \<Rightarrow>
     handler_error option \<times> SessionModificationRequest" where
  "ModifySessionModification L m msg remoteSEID ueIP seqNum =
     (let msg1 = msg\<lparr>smr_Header := (smr_Header msg)\<lparr>hdr_SEID := remoteSEID,
                                                      hdr_SequenceNumber := seqNum\<rparr>\<rparr>;
          (err1, msg2) =
            (if smr_CreatePDR msg1 \<noteq> [] \<and> ueIP \<noteq> None then
               (case modifyUEIPInCreatePDRs L m (smr_CreatePDR msg1) ueIP of
                  (err, pdrs) \<Rightarrow> (err, msg1\<lparr>smr_CreatePDR := pdrs\<rparr>))
             else (None, msg1))
      in if err1 \<noteq> None then (Some ModifyFailed, msg2)
         else if smr_UpdatePDR msg2 \<noteq> [] \<and> ueIP \<noteq> None then
           (case modifyUEIPInCreatePDRs L m (smr_UpdatePDR msg2) ueIP of
              (Some err, pdrs) \<Rightarrow> (Some ModifyFailed, msg2\<lparr>smr_UpdatePDR := pdrs\<rparr>)
            | (None, pdrs) \<Rightarrow> (None, msg2\<lparr>smr_UpdatePDR := pdrs\<rparr>))
         else (None, msg2))"

definition ModifySessionDeletion ::
  "SessionDeletionRequest \<Rightarrow> 64 word \<Rightarrow> 32 word \<Rightarrow> handler_error option \<times> SessionDeletionRequest" where
  "ModifySessionDeletion msg remoteSEID seqNum =
     (None, msg\<lparr>sdr_Header := (sdr_Header msg)\<lparr>hdr_SEID := remoteSEID,
                                                 hdr_SequenceNumber := seqNum\<rparr>\<rparr>)"

definition ModifyHeartbeat ::
  "HeartbeatRequest \<Rightarrow> 32 word \<Rightarrow> handler_error option \<times> HeartbeatRequest" where
  "ModifyHeartbeat msg seqNum =
     (None, msg\<lparr>hbr_Header := (hbr_Header msg)\<lparr>hdr_SequenceNumber := seqNum\<rparr>\<rparr>)"

definition ExtractCPSEID :: "pfcp_lib \<Rightarrow> SessionEstablishmentRequest \<Rightarrow> extract_error + 64 word" where
  "ExtractCPSEID L msg =
     (case ser_CPFSEID msg of
        None \<Rightarrow> Inl NoCPFSEID
      | Some i \<Rightarrow> (case FSEID L i of
                     None \<Rightarrow> Inl ParseCPFSEIDFailed
                   | Some fseid \<Rightarrow> Inr (fseid_SEID fseid)))"

definition ExtractRemoteSEID :: "pfcp_lib \<Rightarrow> SessionEstablishmentResponse \<Rightarrow> extract_error + 64 word" where
  "ExtractRemoteSEID L msg =
     (case rsp_UPFSEID msg of
        None \<Rightarrow> Inl NoUPFSEID
      | Some i \<Rightarrow> (case FSEID L i of
                     None \<Rightarrow> Inl ParseUPFSEIDFailed
                   | Some fseid \<Rightarrow> Inr (fseid_SEID fseid)))"

text \<open>\<^verbatim>\<open>ExtractHeaderSEID\<close> is \<^verbatim>\<open>msg.SEID()\<close>, the SEID of the header.\<close>

definition ExtractHeaderSEID :: "Header \<Rightarrow> 64 word" where
  "ExtractHeaderSEID h = hdr_SEID h"

section \<open>Session manager (\<^verbatim>\<open>internal/session/manager.go\<close>)\<close>

record SessionInfo =
  OriginalCPSEID :: "64 word"
  OriginalRemoteSEID :: "64 word"
  LocalSEID :: "64 word"
  RemoteSEID :: "64 word"
  UEIP :: "net_IP option"
  State :: string
  CreatedAt :: int

text \<open>
  The three tables hold pointers to shared \<^verbatim>\<open>SessionInfo\<close> objects, which the handlers
  update in place: \<open>sessions\<close> is the store of these objects and the tables map to
  references into it. \<open>tracked\<close> lists the calls of \<^verbatim>\<open>tracker.Track\<close> and \<open>sent\<close> the
  datagrams passed to \<^verbatim>\<open>client.Send\<close>, in order (also a datagram for which
  \<^verbatim>\<open>Send\<close> returned an error). The statistics collector and the log are left out;
  they are written and never read by this code.
\<close>

record Manager =
  AssociationEnabled :: bool
  MessageIntervalMs :: int
  modifier :: Modifier
  seidAlloc :: SEIDAllocator
  ipPool :: UEIPPool
  seqCounter :: "32 word"
  sessions :: "nat \<Rightarrow> SessionInfo"
  next_session :: nat
  byOriginalCPSEID :: "64 word \<rightharpoonup> nat"
  byOriginalRemoteSEID :: "64 word \<rightharpoonup> nat"
  byLocalSEID :: "64 word \<rightharpoonup> nat"
  originalSEIDMappings :: "64 word \<rightharpoonup> 64 word"
  tracked :: "(32 word \<times> bytes) list"
  sent :: "bytes list"

text \<open>
  What the environment decides while one message is processed: whether the context is
  done when the loop of \<^verbatim>\<open>Replay\<close> looks at it (before the message, and during the
  delay after it), the draws of \<^verbatim>\<open>rand.Uint64()\<close>, \<^verbatim>\<open>time.Now()\<close>, whether
  \<^verbatim>\<open>client.Send\<close> returns an error, and what \<^verbatim>\<open>waitForResult\<close> returns: the result
  that the transaction tracker put on the channel (a response, the timeout failure after
  the retries, a cancellation) or the error of the context.
\<close>

record env =
  env_ctx_done :: bool
  env_rnd :: "nat \<Rightarrow> 64 word"
  env_now :: int
  env_send_error :: bool
  env_result :: TransactionResult
  env_ctx_done_in_delay :: bool

text \<open>\<^verbatim>\<open>SequenceCounter.Next\<close> on the counter value; returns the number and the new value.\<close>

definition SequenceCounter_Next :: "32 word \<Rightarrow> 32 word \<times> 32 word" where
  "SequenceCounter_Next current =
     (let c = current + 1;
          c1 = (if c > 0xFFFFFF then 1 else c)
      in (c1, c1))"

definition empty_session :: SessionInfo where
  "empty_session =
     \<lparr>OriginalCPSEID = 0, OriginalRemoteSEID = 0, LocalSEID = 0, RemoteSEID = 0,
      UEIP = None, State = [], CreatedAt = 0\<rparr>"

text \<open>
  \<^verbatim>\<open>NewManager\<close>, from the values of the configuration: \<^verbatim>\<open>net.ParseIP\<close> of the SMF
  address, the SEID strategy and start value, and the parsed CIDR of the pool.
\<close>

definition NewManager ::
  "bool \<Rightarrow> int \<Rightarrow> net_IP option \<Rightarrow> bool \<Rightarrow> string \<Rightarrow> 64 word \<Rightarrow> 32 word \<Rightarrow> nat \<Rightarrow> error + Manager" where
  "NewManager assocEnabled intervalMs smf strip seidStrategy seidStart poolIP poolOnes =
     (case NewUEIPPool poolIP poolOnes of
        Inl err \<Rightarrow> Inl err
      | Inr pool \<Rightarrow>
          Inr \<lparr>AssociationEnabled = assocEnabled,
               MessageIntervalMs = intervalMs,
               modifier = NewModifier smf strip,
               seidAlloc = NewSEIDAllocator seidStrategy seidStart,
               ipPool = pool,
               seqCounter = 0,
               sessions = (\<lambda>r. empty_session),
               next_session = 0,
               byOriginalCPSEID = Map.empty,
               byOriginalRemoteSEID = Map.empty,
               byLocalSEID = Map.empty,
               originalSEIDMappings = Map.empty,
               tracked = [],
               sent = []\<rparr>)"

text \<open>\<^verbatim>\<open>SetSEIDMappings\<close>: pairs of original CP SEID and original remote SEID.\<close>

definition SetSEIDMappings :: "(64 word \<times> 64 word) list \<Rightarrow> Manager \<Rightarrow> Manager" where
  "SetSEIDMappings mappings m =
     fold (\<lambda>(cp, remote) m'. m'\<lparr>originalSEIDMappings := (originalSEIDMappings m')(cp \<mapsto> remote)\<rparr>)
       mappings m"

definition findSessionByOriginalRemoteSEID :: "64 word \<Rightarrow> Manager \<Rightarrow> nat option" where
  "findSessionByOriginalRemoteSEID originalRemoteSEID m =
     (case byOriginalRemoteSEID m originalRemoteSEID of
        Some session \<Rightarrow> Some session
      | None \<Rightarrow>
          (case byOriginalCPSEID m originalRemoteSEID of
             Some session \<Rightarrow> Some session
           | None \<Rightarrow> None))"

text \<open>An assignment to a field of the session object behind a reference.\<close>

definition set_State :: "nat \<Rightarrow> string \<Rightarrow> Manager \<Rightarrow> Manager" where
  "set_State session st m =
     m\<lparr>sessions := (sessions m)(session := (sessions m session)\<lparr>State := st\<rparr>)\<rparr>"

text \<open>
  The steps that every handler ends the sending with: \<^verbatim>\<open>pfcp.Encode\<close>,
  \<^verbatim>\<open>tracker.Track\<close>, \<^verbatim>\<open>client.Send\<close>. The result is the error to return, if any,
  and the manager.
\<close>

definition encode_track_send ::
  "pfcp_lib \<Rightarrow> env \<Rightarrow> Message \<Rightarrow> 32 word \<Rightarrow> Manager \<Rightarrow> handler_error option \<times> Manager" where
  "encode_track_send L e msg seqNum m =
     (case Marshal L msg of
        None \<Rightarrow> (Some EncodeFailed, m)
      | Some data \<Rightarrow>
          (let m1 = m\<lparr>tracked := tracked m @ [(seqNum, data)], sent := sent m @ [data]\<rparr>
           in if env_send_error e then (Some SendFailed, m1) else (None, m1)))"

definition handleAssociationSetup ::
  "pfcp_lib \<Rightarrow> env \<Rightarrow> AssociationSetupRequest \<Rightarrow> Manager \<Rightarrow> handler_error option \<times> Manager" where
  "handleAssociationSetup L e req m =
     (if \<not> AssociationEnabled m then (None, m)
      else
        (case SequenceCounter_Next (seqCounter m) of (seqNum, c) \<Rightarrow>
           (let m1 = m\<lparr>seqCounter := c\<rparr> in
            case ModifyAssociationSetup L (modifier m1) req seqNum of
              (Some err, req1) \<Rightarrow> (Some ModifyFailed, m1)
            | (None, req1) \<Rightarrow>
                (case encode_track_send L e (MsgAssociationSetupRequest req1) seqNum m1 of
                   (Some err, m2) \<Rightarrow> (Some err, m2)
                 | (None, m2) \<Rightarrow>
                     (case Error (env_result e) of
                        Some terr \<Rightarrow> (Some (TransactionFailed terr), m2)
                      | None \<Rightarrow> (None, m2))))))"

text \<open>
  \<^verbatim>\<open>handleSessionEstablishment\<close>, in three parts: the allocation and registration of
  the session (\<open>register_session\<close>, up to the second \<^verbatim>\<open>m.mu.Unlock()\<close>), the handling of
  the result (\<open>establishment_result\<close>, from \<^verbatim>\<open>waitForResult\<close> on), and the whole.
\<close>

definition register_session ::
  "env \<Rightarrow> 64 word \<Rightarrow> 64 word \<Rightarrow> 32 word \<Rightarrow> Manager \<Rightarrow> nat \<times> Manager" where
  "register_session e originalCPSEID localSEID ueIP m =
     (let session = next_session m;
          info = \<lparr>OriginalCPSEID = originalCPSEID, OriginalRemoteSEID = 0,
                  LocalSEID = localSEID, RemoteSEID = 0, UEIP = Some (IPv4 ueIP),
                  State = ''establishing'', CreatedAt = env_now e\<rparr>;
          m1 = m\<lparr>sessions := (sessions m)(session := info),
                 next_session := session + 1,
                 byOriginalCPSEID := (byOriginalCPSEID m)(originalCPSEID \<mapsto> session),
                 byLocalSEID := (byLocalSEID m)(localSEID \<mapsto> session)\<rparr>
      in case originalSEIDMappings m1 originalCPSEID of
           None \<Rightarrow> (session, m1)
         | Some origRemoteSEID \<Rightarrow>
             (session,
              m1\<lparr>sessions := (sessions m1)(session := info\<lparr>OriginalRemoteSEID := origRemoteSEID\<rparr>),
                 byOriginalRemoteSEID := (byOriginalRemoteSEID m1)(origRemoteSEID \<mapsto> session)\<rparr>))"

definition establishment_result ::
  "pfcp_lib \<Rightarrow> env \<Rightarrow> nat \<Rightarrow> Manager \<Rightarrow> handler_error option \<times> Manager" where
  "establishment_result L e session m =
     (case Error (env_result e) of
        Some terr \<Rightarrow> (Some (TransactionFailed terr), set_State session ''failed'' m)
      | None \<Rightarrow>
          (case Parse L (Response (env_result e)) of
             None \<Rightarrow> (Some DecodeResponseFailed, m)
           | Some (MsgSessionEstablishmentResponse rsp) \<Rightarrow>
               (let rejected =
                      (case rsp_Cause rsp of
                         None \<Rightarrow> None
                       | Some c \<Rightarrow>
                           (case Cause L c of
                              None \<Rightarrow> None
                            | Some cause \<Rightarrow>
                                if cause \<noteq> CauseRequestAccepted then Some cause else None))
                in case rejected of
                     Some cause \<Rightarrow> (Some (Rejected cause), set_State session ''failed'' m)
                   | None \<Rightarrow>
                       (case ExtractRemoteSEID L rsp of
                          Inl err \<Rightarrow> (Some (ExtractRemoteSEIDFailed err), m)
                        | Inr remoteSEID \<Rightarrow>
                            (None,
                             m\<lparr>sessions := (sessions m)
                                  (session := (sessions m session)
                                     \<lparr>RemoteSEID := remoteSEID, State := ''established''\<rparr>)\<rparr>)))
           | Some other \<Rightarrow> (Some UnexpectedResponseType, m)))"

definition handleSessionEstablishment ::
  "pfcp_lib \<Rightarrow> env \<Rightarrow> SessionEstablishmentRequest \<Rightarrow> Manager \<Rightarrow> handler_error option \<times> Manager" where
  "handleSessionEstablishment L e req m =
     (let originalCPSEID = (case ExtractCPSEID L req of Inl err \<Rightarrow> 0 | Inr v \<Rightarrow> v) in
      case SEIDAllocator_Allocate (env_rnd e) (seidAlloc m) of
        (Inl err, a) \<Rightarrow> (Some (AllocateSEIDFailed err), m\<lparr>seidAlloc := a\<rparr>)
      | (Inr localSEID, a) \<Rightarrow>
          (case UEIPPool_Allocate (ipPool m) of
             (Inl err, p) \<Rightarrow>
               (Some (AllocateUEIPFailed err),
                m\<lparr>seidAlloc := SEIDAllocator_Release localSEID a, ipPool := p\<rparr>)
           | (Inr ueIP, p) \<Rightarrow>
               (case register_session e originalCPSEID localSEID ueIP
                       (m\<lparr>seidAlloc := a, ipPool := p\<rparr>) of
                  (session, m1) \<Rightarrow>
                    (case SequenceCounter_Next (seqCounter m1) of (seqNum, c) \<Rightarrow>
                       (let m2 = m1\<lparr>seqCounter := c\<rparr> in
                        case ModifySessionEstablishment L (modifier m2) req localSEID
                               (Some (IPv4 ueIP)) seqNum of
                          (Some err, req1) \<Rightarrow> (Some ModifyFailed, m2)
                        | (None, req1) \<Rightarrow>
                            (case encode_track_send L e (MsgSessionEstablishmentRequest req1)
                                    seqNum m2 of
                               (Some err, m3) \<Rightarrow> (Some err, m3)
                             | (None, m3) \<Rightarrow> establishment_result L e session m3))))))"

definition handleSessionModification ::
  "pfcp_lib \<Rightarrow> env \<Rightarrow> SessionModificationRequest \<Rightarrow> Manager \<Rightarrow> handler_error option \<times> Manager" where
  "handleSessionModification L e req m =
     (let originalRemoteSEID = ExtractHeaderSEID (smr_Header req) in
      case findSessionByOriginalRemoteSEID originalRemoteSEID m of
        None \<Rightarrow> (Some (NoSessionFound originalRemoteSEID), m)
      | Some session \<Rightarrow>
          (case SequenceCounter_Next (seqCounter m) of (seqNum, c) \<Rightarrow>
             (let m1 = m\<lparr>seqCounter := c\<rparr> in
              case ModifySessionModification L (modifier m1) req
                     (RemoteSEID (sessions m1 session)) (UEIP (sessions m1 session)) seqNum of
                (Some err, req1) \<Rightarrow> (Some ModifyFailed, m1)
              | (None, req1) \<Rightarrow>
                  (case encode_track_send L e (MsgSessionModificationRequest req1) seqNum m1 of
                     (Some err, m2) \<Rightarrow> (Some err, m2)
                   | (None, m2) \<Rightarrow>
                       (case Error (env_result e) of
                          Some terr \<Rightarrow> (Some (TransactionFailed terr), m2)
                        | None \<Rightarrow> (None, m2))))))"

text \<open>
  \<^verbatim>\<open>ipPool.Release\<close> deletes the key of the address; the pool holds IPv4 addresses
  only, so the key of another address is not in it.
\<close>

definition release_UEIP :: "net_IP option \<Rightarrow> UEIPPool \<Rightarrow> UEIPPool" where
  "release_UEIP ueIP p =
     (case ueIP of
        None \<Rightarrow> p
      | Some (IPv4 a) \<Rightarrow> UEIPPool_Release a p
      | Some (IPv6 a) \<Rightarrow> p)"

definition handleSessionDeletion ::
  "pfcp_lib \<Rightarrow> env \<Rightarrow> SessionDeletionRequest \<Rightarrow> Manager \<Rightarrow> handler_error option \<times> Manager" where
  "handleSessionDeletion L e req m =
     (let originalRemoteSEID = ExtractHeaderSEID (sdr_Header req) in
      case findSessionByOriginalRemoteSEID originalRemoteSEID m of
        None \<Rightarrow> (Some (NoSessionFound originalRemoteSEID), m)
      | Some session \<Rightarrow>
          (case SequenceCounter_Next (seqCounter m) of (seqNum, c) \<Rightarrow>
             (let m1 = m\<lparr>seqCounter := c\<rparr> in
              case ModifySessionDeletion req (RemoteSEID (sessions m1 session)) seqNum of
                (Some err, req1) \<Rightarrow> (Some ModifyFailed, m1)
              | (None, req1) \<Rightarrow>
                  (case encode_track_send L e (MsgSessionDeletionRequest req1) seqNum m1 of
                     (Some err, m2) \<Rightarrow> (Some err, m2)
                   | (None, m2) \<Rightarrow>
                       (case Error (env_result e) of
                          Some terr \<Rightarrow> (Some (TransactionFailed terr), m2)
                        | None \<Rightarrow>
                            (None,
                             set_State session ''deleted''
                               (m2\<lparr>seidAlloc :=
                                      SEIDAllocator_Release (LocalSEID (sessions m2 session))
                                        (seidAlloc m2),
                                    ipPool :=
                                      release_UEIP (UEIP (sessions m2 session)) (ipPool m2)\<rparr>)))))))"

definition handleHeartbeat ::
  "pfcp_lib \<Rightarrow> env \<Rightarrow> HeartbeatRequest \<Rightarrow> Manager \<Rightarrow> handler_error option \<times> Manager" where
  "handleHeartbeat L e req m =
     (case SequenceCounter_Next (seqCounter m) of (seqNum, c) \<Rightarrow>
        (let m1 = m\<lparr>seqCounter := c\<rparr> in
         case ModifyHeartbeat req seqNum of
           (Some err, req1) \<Rightarrow> (Some ModifyFailed, m1)
         | (None, req1) \<Rightarrow>
             (case encode_track_send L e (MsgHeartbeatRequest req1) seqNum m1 of
                (Some err, m2) \<Rightarrow> (Some err, m2)
              | (None, m2) \<Rightarrow>
                  (case Error (env_result e) of
                     Some terr \<Rightarrow> (Some (TransactionFailed terr), m2)
                   | None \<Rightarrow> (None, m2)))))"

fun processMessage :: "pfcp_lib \<Rightarrow> env \<Rightarrow> Message \<Rightarrow> Manager \<Rightarrow> handler_error option \<times> Manager" where
  "processMessage L e (MsgAssociationSetupRequest req) m = handleAssociationSetup L e req m"
| "processMessage L e (MsgSessionEstablishmentRequest req) m = handleSessionEstablishment L e req m"
| "processMessage L e (MsgSessionModificationRequest req) m = handleSessionModification L e req m"
| "processMessage L e (MsgSessionDeletionRequest req) m = handleSessionDeletion L e req m"
| "processMessage L e (MsgHeartbeatRequest req) m = handleHeartbeat L e req m"
| "processMessage L e other m = (None, m)"

text \<open>
  \<^verbatim>\<open>Replay\<close>: the loop over the recorded datagrams, each with what the environment
  decides while it is processed. The result is the error that \<^verbatim>\<open>Replay\<close> returns (only
  that of a cancelled context), the outcome of every message in order (\<open>None\<close> for a
  datagram that was skipped because it does not decode, else what \<^verbatim>\<open>processMessage\<close>
  returned, which \<^verbatim>\<open>Replay\<close> logs), and the manager. The delay between messages is
  \<^verbatim>\<open>time.Duration(MessageIntervalMs) * time.Millisecond\<close>.
\<close>

fun Replay ::
  "pfcp_lib \<Rightarrow> (bytes \<times> env) list \<Rightarrow> Manager \<Rightarrow>
     handler_error option \<times> (handler_error option) option list \<times> Manager" where
  "Replay L [] m = (None, [], m)"
| "Replay L ((raw, e) # rest) m =
     (if env_ctx_done e then (Some ContextCancelled, [], m)
      else
        (case Parse L raw of
           None \<Rightarrow>
             (case Replay L rest m of (err, outcomes, m') \<Rightarrow> (err, None # outcomes, m'))
         | Some msg \<Rightarrow>
             (case processMessage L e msg m of
                (perr, m1) \<Rightarrow>
                  if int64_mul (MessageIntervalMs m1) 1000000 > 0 \<and> rest \<noteq> [] \<and>
                     env_ctx_done_in_delay e
                  then (Some ContextCancelled, [Some perr], m1)
                  else (case Replay L rest m1 of
                          (err, outcomes, m') \<Rightarrow> (err, Some perr # outcomes, m')))))"

chapter \<open>Properties\<close>

section \<open>SEIDAllocator: properties\<close>

lemma sequential_loop_first:
  assumes "i < 1000000" "nextSEID s \<noteq> 0" "nextSEID s \<notin> usedSEIDs s"
  shows "sequential_loop i s =
           (Inr (nextSEID s),
            s\<lparr>nextSEID := nextSEID s + 1, usedSEIDs := insert (nextSEID s) (usedSEIDs s)\<rparr>)"
  using assms by (subst sequential_loop.simps) (simp add: Let_def)

lemma sequential_loop_sound:
  "sequential_loop i s = (Inr v, s') \<Longrightarrow>
     v \<noteq> 0 \<and> v \<notin> usedSEIDs s \<and> usedSEIDs s' = insert v (usedSEIDs s)"
proof (induction i s rule: sequential_loop.induct)
  case (1 i s)
  show ?case
  proof (cases "i < 1000000")
    case False
    with "1.prems" show ?thesis by (subst (asm) sequential_loop.simps) simp
  next
    case True
    define s1 where "s1 = (if nextSEID s = 0 then s\<lparr>nextSEID := 1\<rparr> else s)"
    define s2 where "s2 = s1\<lparr>nextSEID := nextSEID s1 + 1\<rparr>"
    have nz: "nextSEID s1 \<noteq> 0" by (simp add: s1_def)
    have used: "usedSEIDs s2 = usedSEIDs s" by (simp add: s2_def s1_def)
    have unfold: "sequential_loop i s =
        (if nextSEID s1 \<notin> usedSEIDs s2
         then (Inr (nextSEID s1), s2\<lparr>usedSEIDs := insert (nextSEID s1) (usedSEIDs s2)\<rparr>)
         else sequential_loop (i + 1) s2)"
      using True by (subst sequential_loop.simps) (simp add: Let_def s1_def s2_def)
    show ?thesis
    proof (cases "nextSEID s1 \<in> usedSEIDs s2")
      case False
      with unfold "1.prems" have "v = nextSEID s1"
        and "s' = s2\<lparr>usedSEIDs := insert (nextSEID s1) (usedSEIDs s2)\<rparr>"
        by simp_all
      with nz False used show ?thesis by simp
    next
      case inuse: True
      with unfold "1.prems" have "sequential_loop (i + 1) s2 = (Inr v, s')"
        by simp
      with "1.IH"[OF True s1_def refl, of s2] inuse have
        "v \<noteq> 0 \<and> v \<notin> usedSEIDs s2 \<and> usedSEIDs s' = insert v (usedSEIDs s2)"
        by (simp add: s2_def)
      with used show ?thesis by simp
    qed
  qed
qed

lemma random_loop_sound:
  "random_loop rnd a s = (Inr v, s') \<Longrightarrow>
     v \<noteq> 0 \<and> v \<notin> usedSEIDs s \<and> usedSEIDs s' = insert v (usedSEIDs s)"
proof (induction rnd a s rule: random_loop.induct)
  case (1 rnd a s)
  show ?case
  proof (cases "a < 10000")
    case False
    with "1.prems" show ?thesis by (subst (asm) random_loop.simps) simp
  next
    case True
    show ?thesis
    proof (cases "rnd a = 0 \<or> rnd a \<in> usedSEIDs s")
      case False
      with True "1.prems" show ?thesis
        by (subst (asm) random_loop.simps) (auto simp: Let_def)
    next
      case coll: True
      with True "1.prems" have "random_loop rnd (a + 1) s = (Inr v, s')"
        by (subst (asm) random_loop.simps) (simp add: Let_def)
      with "1.IH"[OF True refl coll] show ?thesis by simp
    qed
  qed
qed

lemma SEIDAllocator_Allocate_sound:
  "SEIDAllocator_Allocate rnd s = (Inr v, s') \<Longrightarrow>
     v \<noteq> 0 \<and> v \<notin> usedSEIDs s \<and> usedSEIDs s' = insert v (usedSEIDs s)"
  unfolding SEIDAllocator_Allocate_def
  by (auto split: if_splits dest: sequential_loop_sound random_loop_sound)

lemma SEIDAllocator_Allocate_times_numeral:
  "SEIDAllocator_Allocate_times rnd (numeral k) s =
     (case SEIDAllocator_Allocate rnd s of (r, s1) \<Rightarrow>
        (case SEIDAllocator_Allocate_times rnd (pred_numeral k) s1 of (rs, s2) \<Rightarrow> (r # rs, s2)))"
  by (simp add: numeral_eq_Suc)

lemma word_add_of_nat_neq:
  fixes b :: "64 word"
  assumes "i < j" "j < 2 ^ 64"
  shows "b + of_nat i \<noteq> b + of_nat j"
proof -
  have "(of_nat i :: 64 word) \<noteq> of_nat j"
    using assms by (simp add: word_of_nat_eq_iff take_bit_nat_eq_self)
  then show ?thesis by simp
qed

lemma sequential_run:
  assumes "strategy s = ''sequential''"
    and "0 < n \<longrightarrow> nextSEID s \<noteq> 0"
    and "unat (nextSEID s) + n \<le> 2 ^ 64"
    and "\<forall>i<n. nextSEID s + of_nat i \<notin> usedSEIDs s"
  shows "fst (SEIDAllocator_Allocate_times rnd n s) = map (\<lambda>j. Inr (nextSEID s + of_nat j)) [0..<n]"
  using assms
proof (induction n arbitrary: s)
  case 0
  then show ?case by simp
next
  case (Suc n)
  let ?s1 = "s\<lparr>nextSEID := nextSEID s + 1, usedSEIDs := insert (nextSEID s) (usedSEIDs s)\<rparr>"
  have nz: "nextSEID s \<noteq> 0" using Suc.prems(2) by simp
  have free: "nextSEID s \<notin> usedSEIDs s" using Suc.prems(4)[rule_format, of 0] by simp
  have step: "SEIDAllocator_Allocate rnd s = (Inr (nextSEID s), ?s1)"
    using Suc.prems(1) nz free by (simp add: SEIDAllocator_Allocate_def sequential_loop_first)
  show ?case
  proof (cases n)
    case 0
    then show ?thesis using step by simp
  next
    case nonzero: (Suc m)
  have un: "unat (nextSEID s + 1) = unat (nextSEID s) + 1"
    using Suc.prems(3) nonzero by (simp add: unat_word_ariths)
  have IH: "fst (SEIDAllocator_Allocate_times rnd n ?s1) = map (\<lambda>j. Inr (nextSEID ?s1 + of_nat j)) [0..<n]"
  proof (rule Suc.IH)
    show "strategy ?s1 = ''sequential''" using Suc.prems(1) by simp
    show "0 < n \<longrightarrow> nextSEID ?s1 \<noteq> 0" using un by (auto simp flip: unat_gt_0)
    show "unat (nextSEID ?s1) + n \<le> 2 ^ 64" using un Suc.prems(3) by simp
    show "\<forall>i<n. nextSEID ?s1 + of_nat i \<notin> usedSEIDs ?s1"
    proof (intro allI impI)
      fix i assume "i < n"
      have a: "nextSEID s + of_nat (Suc i) \<notin> usedSEIDs s"
        using Suc.prems(4) \<open>i < n\<close> by auto
      have "Suc i < 2 ^ 64" using Suc.prems(3) \<open>i < n\<close> by simp
      then have b: "nextSEID s + of_nat 0 \<noteq> nextSEID s + of_nat (Suc i)"
        by (intro word_add_of_nat_neq) simp_all
      from a b show "nextSEID ?s1 + of_nat i \<notin> usedSEIDs ?s1"
        by (simp add: ac_simps)
    qed
  qed
  have "map (\<lambda>j. Inr (nextSEID s + of_nat j) :: error + 64 word) [0..<Suc n] =
        Inr (nextSEID s) # map (\<lambda>j. Inr (nextSEID s + 1 + of_nat j)) [0..<n]"
    by (simp add: upt_conv_Cons map_Suc_upt[symmetric] add.assoc del: upt_Suc)
  then show ?thesis using step IH by (simp add: case_prod_unfold del: upt_Suc)
  qed
qed


text \<open>
  C6. On a freshly constructed sequential allocator with start value \<open>B \<ge> 1\<close>, the
  \<open>k\<close>-th call of \<^verbatim>\<open>Allocate\<close> (no releases in between) succeeds and returns
  \<open>B + k - 1\<close>, as long as that value still fits 64 bits (the counter has not wrapped);
  and in every mode and every state, a successful \<^verbatim>\<open>Allocate\<close> returns neither 0
  nor a value that was marked allocated when it was called.
\<close>

theorem SEID_sequential_kth_and_fresh:
  "(B \<noteq> 0 \<and> 1 \<le> k \<and> unat B + (k - 1) < 2 ^ 64 \<longrightarrow>
      fst (SEIDAllocator_Allocate_times rnd k (NewSEIDAllocator ''sequential'' B)) ! (k - 1)
        = Inr (B + of_nat k - 1)) \<and>
   (\<forall>s v s'. SEIDAllocator_Allocate rnd s = (Inr v, s') \<longrightarrow> v \<noteq> 0 \<and> v \<notin> usedSEIDs s)"
proof (intro conjI impI allI)
  assume a: "B \<noteq> 0 \<and> 1 \<le> k \<and> unat B + (k - 1) < 2 ^ 64"
  let ?s = "NewSEIDAllocator ''sequential'' B"
  have next0: "nextSEID ?s = B" and strat: "strategy ?s = ''sequential''"
    and used: "usedSEIDs ?s = {}"
    using a by (simp_all add: NewSEIDAllocator_def)
  have "fst (SEIDAllocator_Allocate_times rnd k ?s) = map (\<lambda>j. Inr (nextSEID ?s + of_nat j)) [0..<k]"
  proof (rule sequential_run)
    show "strategy ?s = ''sequential''" by (rule strat)
    show "0 < k \<longrightarrow> nextSEID ?s \<noteq> 0" using a next0 by simp
    show "unat (nextSEID ?s) + k \<le> 2 ^ 64" unfolding next0 using a by (cases k) auto
    show "\<forall>i<k. nextSEID ?s + of_nat i \<notin> usedSEIDs ?s" using used by simp
  qed
  then have "fst (SEIDAllocator_Allocate_times rnd k ?s) ! (k - 1) = Inr (B + of_nat (k - 1))"
    using a next0 by simp
  moreover have "(of_nat (k - 1) :: 64 word) = of_nat k - 1"
    using a by (simp add: of_nat_diff)
  ultimately show
    "fst (SEIDAllocator_Allocate_times rnd k ?s) ! (k - 1) = Inr (B + of_nat k - 1)"
    by (simp add: algebra_simps)
next
  fix s v s'
  assume "SEIDAllocator_Allocate rnd s = (Inr v, s')"
  then show "v \<noteq> 0" by (simp add: SEIDAllocator_Allocate_sound)
next
  fix s v s'
  assume "SEIDAllocator_Allocate rnd s = (Inr v, s')"
  then show "v \<notin> usedSEIDs s" by (simp add: SEIDAllocator_Allocate_sound)
qed

theorem SEID_sequential_kth_and_fresh_witness:
  "fst (SEIDAllocator_Allocate_times zero_draws 3 (NewSEIDAllocator ''sequential'' 5)) ! 2 = Inr 7 \<and>
   SEIDAllocator_Allocate zero_draws (NewSEIDAllocator ''sequential'' 5)
     = (Inr 5, \<lparr>strategy = ''sequential'', nextSEID = 6, usedSEIDs = {5}\<rparr>) \<and>
   (5 :: 64 word) \<noteq> 0 \<and>
   (5 :: 64 word) \<notin> usedSEIDs (NewSEIDAllocator ''sequential'' 5)"
proof -
  have run: "SEIDAllocator_Allocate zero_draws (NewSEIDAllocator ''sequential'' 5)
     = (Inr 5, \<lparr>strategy = ''sequential'', nextSEID = 6, usedSEIDs = {5}\<rparr>)"
    by (simp add: SEIDAllocator_Allocate_def NewSEIDAllocator_def sequential_loop.simps Let_def)
  have hyp: "(5 :: 64 word) \<noteq> 0 \<and> 1 \<le> (3 :: nat) \<and> unat (5 :: 64 word) + (3 - 1) < 2 ^ 64"
    by simp
  from SEID_sequential_kth_and_fresh [of 5 3 zero_draws] hyp run
  show ?thesis by (simp add: NewSEIDAllocator_def)
qed

text \<open>
  The claim as stated, for every \<open>B \<ge> 1\<close> and \<open>k \<ge> 1\<close>, fails where the counter
  wraps: with \<open>B = 2^64 - 1\<close> the second call skips the reserved 0 and returns 1,
  while \<open>B + k - 1 = 2^64\<close> is no 64-bit value (and is 0 modulo \<open>2^64\<close>).
\<close>

theorem SEID_sequential_kth_counterexample:
  "fst (SEIDAllocator_Allocate_times zero_draws 2 (NewSEIDAllocator ''sequential'' 18446744073709551615)) ! (2 - 1)
     = Inr 1 \<and>
   ((18446744073709551615 :: 64 word) + of_nat 2 - 1 = 0) \<and>
   unat (18446744073709551615 :: 64 word) + 2 - 1 = 2 ^ 64"
proof -
  have "fst (SEIDAllocator_Allocate_times zero_draws 2 (NewSEIDAllocator ''sequential'' 18446744073709551615))
          = [Inr 18446744073709551615, Inr 1]"
    by (simp add: SEIDAllocator_Allocate_times_numeral SEIDAllocator_Allocate_def NewSEIDAllocator_def
        sequential_loop.simps Let_def)
  then show ?thesis by simp
qed

section \<open>UEIPPool: properties\<close>

lemma UEIPPool_Allocate_times_numeral:
  "UEIPPool_Allocate_times (numeral k) p =
     (case UEIPPool_Allocate p of (r, p1) \<Rightarrow>
        (case UEIPPool_Allocate_times (pred_numeral k) p1 of (rs, p2) \<Rightarrow> (r # rs, p2)))"
  by (simp add: numeral_eq_Suc)

lemma word_sub_and_not_mask: fixes x :: "32 word" shows "x - (x AND NOT (mask h)) = take_bit h x"
  by (metis (no_types, lifting) and.left_commute bit.conj_cancel_left
    bit.conj_one_right bit.conj_xor_distrib2 disjunctive_and_not_eq_xor
    disjunctive_diff_eq_and_not take_bit_eq_mask word_not_not)

lemma unat_less_take_bit_self: fixes d :: "32 word" assumes "unat d < 2 ^ h" shows "take_bit h d = d"
  by (metis assms take_bit_nat_eq_self_iff unsigned_take_bit_eq unsigned_word_eqI)

lemma aligned_and_low_zero: fixes net d :: "32 word"
  assumes "net AND NOT (mask h) = net" "take_bit h d = d"
  shows "net AND d = 0"
proof -
  have "net AND d = (net AND NOT (mask h)) AND (d AND mask h)"
    using assms by (simp add: take_bit_eq_mask)
  also have "\<dots> = 0"
    by (simp add: ac_simps)
  finally show ?thesis .
qed

lemma aligned_plus_low: fixes net d :: "32 word"
  assumes "net AND NOT (mask h) = net" "unat d < 2 ^ h"
  shows "(net + d) AND NOT (mask h) = net"
proof -
  have d: "take_bit h d = d" using assms(2) by (rule unat_less_take_bit_self)
  have "net AND d = 0" using assms(1) d by (rule aligned_and_low_zero)
  then have "net + d = net OR d" by (rule disjunctive_add_eq_or)
  moreover have "d AND NOT (mask h) = 0"
  proof -
    have "d AND NOT (mask h) = (d AND mask h) AND NOT (mask h)"
      using d by (simp add: take_bit_eq_mask)
    also have "\<dots> = 0" by (simp add: and.assoc)
    finally show ?thesis .
  qed
  ultimately show ?thesis using assms(1) by (simp add: bit.conj_disj_distrib2)
qed

lemma contains_iff_offset:
  fixes net x :: "32 word"
  assumes "net AND NOT (mask h) = net"
  shows "(net AND NOT (mask h) = x AND NOT (mask h)) \<longleftrightarrow> unat (x - net) < 2 ^ h"
proof
  assume "net AND NOT (mask h) = x AND NOT (mask h)"
  then have "x - net = take_bit h x"
    using assms word_sub_and_not_mask[of x h] by simp
  then show "unat (x - net) < 2 ^ h" by (simp add: unsigned_take_bit_eq)
next
  assume "unat (x - net) < 2 ^ h"
  with assms have "(net + (x - net)) AND NOT (mask h) = net" by (rule aligned_plus_low)
  then show "net AND NOT (mask h) = x AND NOT (mask h)" using assms by simp
qed

lemma Contains_offset:
  assumes "cidr_IP p AND CIDRMask (cidr_ones p) = cidr_IP p"
  shows "Contains p x \<longleftrightarrow> unat (x - cidr_IP p) < 2 ^ (32 - cidr_ones p)"
  using assms contains_iff_offset[of "cidr_IP p" "32 - cidr_ones p" x]
  by (simp add: Contains_def CIDRMask_def)

lemma Contains_plus_of_nat:
  assumes "cidr_IP p AND CIDRMask (cidr_ones p) = cidr_IP p" "k < 2 ^ 32"
  shows "Contains p (cidr_IP p + of_nat k) \<longleftrightarrow> k < 2 ^ (32 - cidr_ones p)"
  using assms by (simp add: Contains_offset unat_of_nat)


lemma addr_upd [simp]:
  "addr (p\<lparr>nextIP := x\<rparr>) = addr p" "addr (p\<lparr>allocated := A\<rparr>) = addr p"
  by (simp_all add: addr_def fun_eq_iff)

lemma capacity_upd [simp]:
  "capacity (p\<lparr>nextIP := x\<rparr>) = capacity p" "capacity (p\<lparr>allocated := A\<rparr>) = capacity p"
  by (simp_all add: capacity_def)

lemma Contains_upd [simp]:
  "Contains (p\<lparr>nextIP := x\<rparr>) = Contains p" "Contains (p\<lparr>allocated := A\<rparr>) = Contains p"
  by (simp_all add: Contains_def fun_eq_iff)

lemma wrap_cursor_fields [simp]:
  "cidr_IP (wrap_cursor p) = cidr_IP p" "cidr_ones (wrap_cursor p) = cidr_ones p"
  "allocated (wrap_cursor p) = allocated p"
  by (simp_all add: wrap_cursor_def)

lemma advance_fields [simp]:
  "cidr_IP (advance p) = cidr_IP p" "cidr_ones (advance p) = cidr_ones p"
  "allocated (advance p) = allocated p"
  by (simp_all add: advance_def)

lemma capacity_bounds:
  assumes "block_ok p"
  shows "0 < capacity p" "capacity p + 1 = 2 ^ (32 - cidr_ones p)" "capacity p < 2 ^ 31"
proof -
  let ?h = "32 - cidr_ones p"
  have h: "1 \<le> ?h" "?h \<le> 31" using assms by (auto simp: block_ok_def)
  have "(2::nat) ^ 1 \<le> 2 ^ ?h" using h(1) by (intro power_increasing) simp_all
  then show "0 < capacity p" by (simp add: capacity_def)
  show "capacity p + 1 = 2 ^ ?h" by (simp add: capacity_def)
  have "(2::nat) ^ ?h \<le> 2 ^ 31" using h(2) by (intro power_increasing) simp_all
  then show "capacity p < 2 ^ 31" by (simp add: capacity_def)
qed

lemma addr_Contains:
  assumes "block_ok p" "j < capacity p"
  shows "Contains p (addr p j)"
proof -
  have "Suc j < 2 ^ (32 - cidr_ones p)" "Suc j < 2 ^ 32"
    using assms capacity_bounds[OF assms(1)] by simp_all
  moreover have "addr p j = cidr_IP p + of_nat (Suc j)" by (simp add: addr_def)
  ultimately show ?thesis using assms(1) by (simp add: Contains_plus_of_nat block_ok_def del: of_nat_Suc)
qed

lemma addr_neq_net:
  assumes "block_ok p" "j < capacity p"
  shows "addr p j \<noteq> cidr_IP p"
proof -
  have "Suc j < 2 ^ 32" using assms capacity_bounds[OF assms(1)] by simp
  then have "(of_nat (Suc j) :: 32 word) \<noteq> 0"
    by (simp add: word_of_nat_eq_0_iff del: of_nat_Suc) (auto dest: dvd_imp_le)
  then show ?thesis by (simp add: addr_def add.assoc)
qed

lemma addr_inj:
  assumes "block_ok p" "i < capacity p" "j < capacity p" "addr p i = addr p j"
  shows "i = j"
proof -
  have "i < 2 ^ 32" "j < 2 ^ 32" using assms capacity_bounds[OF assms(1)] by simp_all
  moreover have "(of_nat i :: 32 word) = of_nat j" using assms(4) by (simp add: addr_def)
  ultimately show ?thesis by (simp add: word_of_nat_eq_iff take_bit_nat_eq_self)
qed

lemma block_iff_addr:
  assumes "block_ok p"
  shows "Contains p a \<and> a \<noteq> cidr_IP p \<longleftrightarrow> (\<exists>j<capacity p. a = addr p j)"
proof
  assume a: "Contains p a \<and> a \<noteq> cidr_IP p"
  let ?d = "a - cidr_IP p"
  have lt: "unat ?d < 2 ^ (32 - cidr_ones p)"
    using a assms by (simp add: Contains_offset block_ok_def)
  have nz: "unat ?d \<noteq> 0" using a by (simp add: unat_eq_0)
  have "a = cidr_IP p + 1 + of_nat (unat ?d - 1)"
    using nz by (simp add: of_nat_diff)
  moreover have "unat ?d - 1 < capacity p" using lt nz by (simp add: capacity_def)
  ultimately show "\<exists>j<capacity p. a = addr p j" unfolding addr_def by blast
next
  assume "\<exists>j<capacity p. a = addr p j"
  then obtain j where "j < capacity p" "a = addr p j" by blast
  then show "Contains p a \<and> a \<noteq> cidr_IP p"
    using addr_Contains[OF assms] addr_neq_net[OF assms] by simp
qed

lemma advance_addr:
  assumes "block_ok p" "nextIP p = addr p j" "j < capacity p"
  shows "advance p = p\<lparr>nextIP := addr p (Suc j mod capacity p)\<rparr>"
proof (cases "Suc j = capacity p")
  case True
  have nat_eq: "Suc (Suc j) = 2 ^ (32 - cidr_ones p)"
    using True capacity_bounds(2)[OF assms(1)] by simp
  have "incrementIP (nextIP p) = cidr_IP p + of_nat (Suc (Suc j))"
    using assms(2) by (simp add: incrementIP_def addr_def add.assoc)
  then have inc: "incrementIP (nextIP p) = cidr_IP p + of_nat (2 ^ (32 - cidr_ones p))"
    by (simp only: nat_eq)
  have "(2::nat) ^ (32 - cidr_ones p) < 2 ^ 32"
    using capacity_bounds(2,3)[OF assms(1)] by simp
  then have "\<not> Contains p (cidr_IP p + of_nat (2 ^ (32 - cidr_ones p)))"
    using assms(1) by (subst Contains_plus_of_nat) (simp_all add: block_ok_def)
  then have "\<not> Contains p (incrementIP (nextIP p))"
    unfolding inc .
  then show ?thesis using True
    by (simp add: advance_def wrap_cursor_def incrementIP_def addr_def)
next
  case False
  then have lt: "Suc j < capacity p" using assms(3) by simp
  have "incrementIP (nextIP p) = addr p (Suc j)"
    using assms(2) by (simp add: incrementIP_def addr_def add.assoc)
  moreover have "Contains p (addr p (Suc j))" using assms(1) lt by (rule addr_Contains)
  ultimately show ?thesis using lt
    by (simp add: advance_def wrap_cursor_def)
qed

lemma pool_inv_addr:
  "pool_inv p \<longleftrightarrow> block_ok p \<and> (\<exists>j<capacity p. nextIP p = addr p j)"
  using block_iff_addr[of p "nextIP p"] by (auto simp: pool_inv_def block_ok_def)

lemma block_ok_upd [simp]:
  "block_ok (p\<lparr>nextIP := x\<rparr>) = block_ok p" "block_ok (p\<lparr>allocated := A\<rparr>) = block_ok p"
  "block_ok (advance p) = block_ok p"
  by (simp_all add: block_ok_def)

lemma pool_inv_allocated_upd [simp]:
  "pool_inv (p\<lparr>allocated := A\<rparr>) = pool_inv p"
  by (simp add: pool_inv_def)

lemma advance_inv:
  assumes "pool_inv p"
  shows "pool_inv (advance p)"
proof -
  from assms obtain j where ok: "block_ok p" and j: "j < capacity p" "nextIP p = addr p j"
    by (auto simp: pool_inv_addr)
  have "advance p = p\<lparr>nextIP := addr p (Suc j mod capacity p)\<rparr>"
    using ok j(2) j(1) by (rule advance_addr)
  moreover have "Suc j mod capacity p < capacity p" using j(1) by simp
  ultimately show ?thesis using ok unfolding pool_inv_addr by auto
qed


lemma scan_unfold:
  "scan s t c p =
     (if nextIP p \<notin> allocated p
      then (Inr (nextIP p), advance (p\<lparr>allocated := insert (nextIP p) (allocated p)\<rparr>))
      else if c + 1 \<ge> t - 1 \<or> nextIP (advance p) = s
           then (Inl (PoolExhausted (card (allocated p))), advance p)
           else scan s t (c + 1) (advance p))"
  by (subst scan.simps) (simp add: Let_def advance_def)

lemma scan_Inr:
  assumes "pool_inv p" "scan s t c p = (Inr r, p')"
  shows "r \<notin> allocated p \<and> Contains p r \<and> r \<noteq> cidr_IP p \<and>
         allocated p' = insert r (allocated p) \<and> pool_inv p' \<and>
         cidr_IP p' = cidr_IP p \<and> cidr_ones p' = cidr_ones p"
  using assms
proof (induction s t c p rule: scan.induct)
  case (1 s t c p)
  show ?case
  proof (cases "nextIP p \<notin> allocated p")
    case True
    then have "scan s t c p =
        (Inr (nextIP p), advance (p\<lparr>allocated := insert (nextIP p) (allocated p)\<rparr>))"
      by (subst scan_unfold) simp
    with "1.prems"(2) have r: "r = nextIP p"
      and p': "p' = advance (p\<lparr>allocated := insert (nextIP p) (allocated p)\<rparr>)"
      by auto
    have "pool_inv p'" unfolding p' using "1.prems"(1) by (intro advance_inv) simp
    then show ?thesis using True r p' "1.prems"(1) by (simp add: pool_inv_def)
  next
    case False
    then have "scan s t c p =
        (if c + 1 \<ge> t - 1 \<or> nextIP (advance p) = s
         then (Inl (PoolExhausted (card (allocated p))), advance p)
         else scan s t (c + 1) (advance p))"
      by (subst scan_unfold) simp
    with "1.prems"(2) have nofail: "\<not> (c + 1 \<ge> t - 1 \<or> nextIP (advance p) = s)"
      and rec: "scan s t (c + 1) (advance p) = (Inr r, p')"
      by (auto split: if_splits)
    have "r \<notin> allocated (advance p) \<and> Contains (advance p) r \<and> r \<noteq> cidr_IP (advance p) \<and>
         allocated p' = insert r (allocated (advance p)) \<and> pool_inv p' \<and>
         cidr_IP p' = cidr_IP (advance p) \<and> cidr_ones p' = cidr_ones (advance p)"
    proof (rule "1.IH"[of "advance p" "c + 1"])
      show "\<not> nextIP p \<notin> allocated p" using False by simp
      show "advance p = wrap_cursor (p\<lparr>nextIP := incrementIP (nextIP p)\<rparr>)"
        by (simp add: advance_def)
      show "c + 1 = c + 1" by simp
      show "\<not> (t - 1 \<le> c + 1 \<or> nextIP (advance p) = s)" using nofail by simp
      show "pool_inv (advance p)" using "1.prems"(1) by (rule advance_inv)
      show "scan s t (c + 1) (advance p) = (Inr r, p')" by (rule rec)
    qed
    then show ?thesis by (simp add: Contains_def)
  qed
qed

lemma mod_cycle_return:
  fixes s0 k N :: nat
  assumes "s0 < N" "0 < k" "k < N"
  shows "(s0 + k) mod N \<noteq> s0"
proof
  assume eq: "(s0 + k) mod N = s0"
  show False
  proof (cases "s0 + k < N")
    case True
    then show False using eq assms by simp
  next
    case False
    then have "(s0 + k) mod N = s0 + k - N"
      using assms by (simp add: mod_if)
    then show False using eq assms False by simp
  qed
qed

lemma mod_cycle_cover:
  fixes s0 j N :: nat
  assumes "s0 < N" "j < N"
  shows "\<exists>i<N. (s0 + i) mod N = j"
proof (cases "s0 \<le> j")
  case True
  then have "(s0 + (j - s0)) mod N = j" "j - s0 < N" using assms by simp_all
  then show ?thesis by blast
next
  case False
  then have "(s0 + (j + N - s0)) mod N = j" "j + N - s0 < N" using assms by simp_all
  then show ?thesis by blast
qed

lemma scan_Inl:
  assumes "block_ok p" "s0 < capacity p" "s = addr p s0"
    and "t = 2 ^ (32 - cidr_ones p)"
    and "0 \<le> c" "nat c < capacity p"
    and "nextIP p = addr p ((s0 + nat c) mod capacity p)"
    and "\<forall>i<nat c. addr p ((s0 + i) mod capacity p) \<in> allocated p"
    and "scan s t c p = (Inl e, p')"
  shows "(\<forall>j<capacity p. addr p j \<in> allocated p) \<and> allocated p' = allocated p \<and>
         e = PoolExhausted (card (allocated p)) \<and> pool_inv p' \<and>
         cidr_IP p' = cidr_IP p \<and> cidr_ones p' = cidr_ones p"
  using assms
proof (induction s t c p rule: scan.induct)
  case (1 s t c p)
  let ?N = "capacity p"
  let ?j = "(s0 + nat c) mod ?N"
  have held: "nextIP p \<in> allocated p"
    using "1.prems"(9) by (subst (asm) scan_unfold) (auto split: if_splits)
  then have unf: "scan s t c p =
        (if c + 1 \<ge> t - 1 \<or> nextIP (advance p) = s
         then (Inl (PoolExhausted (card (allocated p))), advance p)
         else scan s t (c + 1) (advance p))"
      by (subst scan_unfold) simp
  have jN: "?j < ?N" using "1.prems"(2) by simp
  have adv: "advance p = p\<lparr>nextIP := addr p (Suc ?j mod ?N)\<rparr>"
    using "1.prems"(1,7) jN by (intro advance_addr) simp_all
  have sucj: "Suc ?j mod ?N = (s0 + nat (c + 1)) mod ?N"
    using "1.prems"(5) by (simp add: nat_add_distrib mod_Suc_eq)
  have t1: "t - 1 = int ?N"
    using "1.prems"(4) capacity_bounds(2)[OF "1.prems"(1)]
    by (metis add_diff_cancel_right' of_nat_1 of_nat_add of_nat_numeral of_nat_power)
  have visited: "\<forall>i<nat (c + 1). addr p ((s0 + i) mod ?N) \<in> allocated p"
  proof (intro allI impI)
    fix i assume "i < nat (c + 1)"
    then have "i < nat c \<or> i = nat c" using "1.prems"(5) by auto
    then show "addr p ((s0 + i) mod ?N) \<in> allocated p"
      using "1.prems"(8) held "1.prems"(7) by auto
  qed
  show ?case
  proof (cases "c + 1 \<ge> t - 1 \<or> nextIP (advance p) = s")
    case True
    have full: "nat (c + 1) = ?N"
    proof (rule ccontr)
      assume ne: "nat (c + 1) \<noteq> ?N"
      then have lt: "nat (c + 1) < ?N" using "1.prems"(5,6) by auto
      then have "\<not> c + 1 \<ge> t - 1" using t1 "1.prems"(5) by auto
      with True have "nextIP (advance p) = s" by simp
      then have "addr p ((s0 + nat (c + 1)) mod ?N) = addr p s0"
        using adv sucj "1.prems"(3) by simp
      then have "(s0 + nat (c + 1)) mod ?N = s0"
        using "1.prems"(1,2) by (intro addr_inj[of p]) simp_all
      moreover have "0 < nat (c + 1)" using "1.prems"(5) by simp
      ultimately show False using mod_cycle_return[OF "1.prems"(2) _ lt] by simp
    qed
    have all: "\<forall>j<?N. addr p j \<in> allocated p"
    proof (intro allI impI)
      fix j assume "j < ?N"
      with "1.prems"(2) obtain i where "i < ?N" "(s0 + i) mod ?N = j"
        using mod_cycle_cover by blast
      then show "addr p j \<in> allocated p" using visited full by auto
    qed
    from True unf "1.prems"(9) have e: "e = PoolExhausted (card (allocated p))"
      and p': "p' = advance p"
      by auto
    have "pool_inv (advance p)"
      unfolding pool_inv_addr adv using "1.prems"(1) "1.prems"(2)
      by (auto intro!: exI[of _ "Suc ?j mod ?N"])
    then show ?thesis using all e p' by simp
  next
    case False
    with unf "1.prems"(9) have rec: "scan s t (c + 1) (advance p) = (Inl e, p')"
      by simp
    have lt: "nat (c + 1) < ?N" using False t1 "1.prems"(5) by auto
    have "(\<forall>j<capacity (advance p). addr (advance p) j \<in> allocated (advance p)) \<and>
          allocated p' = allocated (advance p) \<and>
          e = PoolExhausted (card (allocated (advance p))) \<and> pool_inv p' \<and>
          cidr_IP p' = cidr_IP (advance p) \<and> cidr_ones p' = cidr_ones (advance p)"
    proof (rule "1.IH"[of "advance p" "c + 1"])
      show "\<not> nextIP p \<notin> allocated p" using held by simp
      show "advance p = wrap_cursor (p\<lparr>nextIP := incrementIP (nextIP p)\<rparr>)"
        by (simp add: advance_def)
      show "c + 1 = c + 1" by simp
      show "\<not> (t - 1 \<le> c + 1 \<or> nextIP (advance p) = s)" using False by simp
      show "block_ok (advance p)" using "1.prems"(1) by simp
      show "s0 < capacity (advance p)" using "1.prems"(2) by (simp add: adv)
      show "s = addr (advance p) s0" using "1.prems"(3) by (simp add: adv)
      show "t = 2 ^ (32 - cidr_ones (advance p))" using "1.prems"(4) by simp
      show "0 \<le> c + 1" using "1.prems"(5) by simp
      show "nat (c + 1) < capacity (advance p)" using lt by (simp add: adv)
      show "nextIP (advance p) = addr (advance p) ((s0 + nat (c + 1)) mod capacity (advance p))"
        using sucj by (simp add: adv)
      show "\<forall>i<nat (c + 1). addr (advance p) ((s0 + i) mod capacity (advance p))
              \<in> allocated (advance p)"
        using visited by (simp add: adv)
      show "scan s t (c + 1) (advance p) = (Inl e, p')" by (rule rec)
    qed
    then show ?thesis by (simp add: adv)
  qed
qed

lemma UEIPPool_Allocate_scan:
  assumes "Contains p (nextIP p)"
  shows "UEIPPool_Allocate p = scan (nextIP p) (2 ^ (32 - cidr_ones p)) 0 p"
  using assms by (simp add: UEIPPool_Allocate_def wrap_cursor_def Let_def)

lemma UEIPPool_Allocate_first:
  assumes "Contains p (nextIP p)" "nextIP p \<notin> allocated p"
  shows "UEIPPool_Allocate p =
           (Inr (nextIP p), advance (p\<lparr>allocated := insert (nextIP p) (allocated p)\<rparr>))"
  using assms by (simp add: UEIPPool_Allocate_scan) (subst scan_unfold, simp)

lemma UEIPPool_Allocate_Inr:
  assumes "pool_inv p" "UEIPPool_Allocate p = (Inr r, p')"
  shows "r \<notin> allocated p \<and> Contains p r \<and> r \<noteq> cidr_IP p \<and>
         allocated p' = insert r (allocated p) \<and> pool_inv p' \<and>
         cidr_IP p' = cidr_IP p \<and> cidr_ones p' = cidr_ones p"
proof -
  have "Contains p (nextIP p)" using assms(1) by (simp add: pool_inv_def)
  then have "scan (nextIP p) (2 ^ (32 - cidr_ones p)) 0 p = (Inr r, p')"
    using assms(2) by (simp add: UEIPPool_Allocate_scan)
  with assms(1) show ?thesis by (rule scan_Inr)
qed

lemma UEIPPool_Allocate_Inl:
  assumes "pool_inv p" "UEIPPool_Allocate p = (Inl e, p')"
  shows "(\<forall>a. Contains p a \<and> a \<noteq> cidr_IP p \<longrightarrow> a \<in> allocated p) \<and>
         allocated p' = allocated p \<and> e = PoolExhausted (card (allocated p)) \<and>
         pool_inv p' \<and> cidr_IP p' = cidr_IP p \<and> cidr_ones p' = cidr_ones p"
proof -
  from assms(1) obtain j where ok: "block_ok p" and j: "j < capacity p" "nextIP p = addr p j"
    by (auto simp: pool_inv_addr)
  have "Contains p (nextIP p)" using assms(1) by (simp add: pool_inv_def)
  then have sc: "scan (nextIP p) (2 ^ (32 - cidr_ones p)) 0 p = (Inl e, p')"
    using assms(2) by (simp add: UEIPPool_Allocate_scan)
  have "(\<forall>j<capacity p. addr p j \<in> allocated p) \<and> allocated p' = allocated p \<and>
         e = PoolExhausted (card (allocated p)) \<and> pool_inv p' \<and>
         cidr_IP p' = cidr_IP p \<and> cidr_ones p' = cidr_ones p"
  proof (rule scan_Inl[where ?s0.0 = j and c = 0])
    show "block_ok p" by (rule ok)
    show "j < capacity p" by (rule j(1))
    show "nextIP p = addr p j" by (rule j(2))
    show "(2::int) ^ (32 - cidr_ones p) = 2 ^ (32 - cidr_ones p)" by simp
    show "(0::int) \<le> 0" by simp
    show "nat 0 < capacity p" using j(1) by simp
    show "nextIP p = addr p ((j + nat 0) mod capacity p)" using j by simp
    show "\<forall>i<nat 0. addr p ((j + i) mod capacity p) \<in> allocated p" by simp
    show "scan (nextIP p) (2 ^ (32 - cidr_ones p)) 0 p = (Inl e, p')" by (rule sc)
  qed
  moreover have "\<forall>a. Contains p a \<and> a \<noteq> cidr_IP p \<longrightarrow> (\<exists>j<capacity p. a = addr p j)"
    using block_iff_addr[OF ok] by blast
  ultimately show ?thesis by blast
qed

lemma NewUEIPPool_inv:
  assumes "1 \<le> ones" "ones \<le> 31" "NewUEIPPool ip ones = Inr p"
  shows "pool_inv p \<and> nextIP p = addr p 0 \<and> allocated p = {} \<and> cidr_ones p = ones \<and>
         cidr_IP p = ip AND CIDRMask ones"
proof -
  have p: "p = \<lparr>cidr_IP = ip AND CIDRMask ones, cidr_ones = ones,
                nextIP = incrementIP (ip AND CIDRMask ones), allocated = {}\<rparr>"
    using assms by (simp add: NewUEIPPool_def)
  have ok: "block_ok p" using assms(1,2) by (simp add: p block_ok_def and.assoc)
  have nx: "nextIP p = addr p 0" by (simp add: p addr_def incrementIP_def)
  have "0 < capacity p" using ok by (rule capacity_bounds)
  then have "pool_inv p" unfolding pool_inv_addr using ok nx by blast
  then show ?thesis using nx by (simp add: p)
qed

lemma UEIPPool_Release_inv [simp]: "pool_inv (UEIPPool_Release x p) = pool_inv p"
  by (simp add: UEIPPool_Release_def)

lemma UEIPPool_Allocate_times_add:
  "UEIPPool_Allocate_times (m + n) p =
     (case UEIPPool_Allocate_times m p of (rs1, p1) \<Rightarrow>
        (case UEIPPool_Allocate_times n p1 of (rs2, p2) \<Rightarrow> (rs1 @ rs2, p2)))"
  by (induction m arbitrary: p) (simp_all split: prod.splits)

lemma addr_image_Suc:
  "insert (addr p k) (addr p ` {..<k}) = addr p ` {..<Suc k}"
  by (simp add: lessThan_Suc)

lemma fresh_run:
  assumes "block_ok p" "nextIP p = addr p (k mod capacity p)" "allocated p = addr p ` {..<k}"
    and "k + n \<le> capacity p"
  shows "UEIPPool_Allocate_times n p =
           (map (\<lambda>j. Inr (addr p j)) [k..<k + n],
            p\<lparr>nextIP := addr p ((k + n) mod capacity p), allocated := addr p ` {..<k + n}\<rparr>)"
  using assms
proof (induction n arbitrary: p k)
  case 0
  then show ?case by simp
next
  case (Suc n)
  let ?N = "capacity p"
  have kN: "k < ?N" using Suc.prems(4) by simp
  then have cur: "nextIP p = addr p k" using Suc.prems(2) by simp
  have con: "Contains p (nextIP p)" unfolding cur using Suc.prems(1) kN by (rule addr_Contains)
  have free: "nextIP p \<notin> allocated p"
  proof
    assume "nextIP p \<in> allocated p"
    then obtain i where "i < k" "addr p k = addr p i" using cur Suc.prems(3) by auto
    then show False using addr_inj[OF Suc.prems(1), of k i] kN by simp
  qed
  let ?p1 = "advance (p\<lparr>allocated := insert (nextIP p) (allocated p)\<rparr>)"
  have step: "UEIPPool_Allocate p = (Inr (addr p k), ?p1)"
    using UEIPPool_Allocate_first[OF con free] cur by simp
  have p1: "?p1 = p\<lparr>nextIP := addr p (Suc k mod ?N), allocated := addr p ` {..<Suc k}\<rparr>"
  proof -
    have "?p1 = (p\<lparr>allocated := insert (nextIP p) (allocated p)\<rparr>)
                 \<lparr>nextIP := addr p (Suc k mod ?N)\<rparr>"
      using advance_addr[of "p\<lparr>allocated := insert (nextIP p) (allocated p)\<rparr>" k]
        Suc.prems(1) cur kN by simp
    then show ?thesis using cur Suc.prems(3) by (simp add: addr_image_Suc)
  qed
  have IH: "UEIPPool_Allocate_times n ?p1 =
     (map (\<lambda>j. Inr (addr ?p1 j)) [Suc k..<Suc k + n],
      ?p1\<lparr>nextIP := addr ?p1 ((Suc k + n) mod capacity ?p1),
           allocated := addr ?p1 ` {..<Suc k + n}\<rparr>)"
  proof (rule Suc.IH)
    show "block_ok ?p1" using Suc.prems(1) by simp
    show "nextIP ?p1 = addr ?p1 (Suc k mod capacity ?p1)" by (simp add: p1)
    show "allocated ?p1 = addr ?p1 ` {..<Suc k}" by (simp add: p1)
    show "Suc k + n \<le> capacity ?p1" using Suc.prems(4) by (simp add: p1)
  qed
  have "[k..<k + Suc n] = k # [Suc k..<Suc k + n]" by (simp add: upt_conv_Cons)
  then show ?case using step IH by (simp add: p1 del: upt_Suc)
qed


lemma addr_card:
  assumes "block_ok p" "k \<le> capacity p"
  shows "card (addr p ` {..<k}) = k"
proof -
  have "inj_on (addr p) {..<k}"
    using assms by (auto intro!: inj_onI addr_inj[OF assms(1)])
  then show ?thesis by (simp add: card_image)
qed

lemma fresh_exhaustion:
  assumes "1 \<le> ones" "ones \<le> 31" "NewUEIPPool ip ones = Inr p0"
  shows "fst (UEIPPool_Allocate_times (capacity p0 + 1) p0) =
           map (\<lambda>j. Inr (addr p0 j)) [0..<capacity p0] @ [Inl (PoolExhausted (capacity p0))]"
proof -
  let ?N = "capacity p0"
  from NewUEIPPool_inv[OF assms] have inv0: "pool_inv p0" and nx: "nextIP p0 = addr p0 0"
    and al: "allocated p0 = {}" by simp_all
  have ok: "block_ok p0" using inv0 by (simp add: pool_inv_addr)
  have Npos: "0 < ?N" using ok by (rule capacity_bounds)
  let ?pN = "p0\<lparr>nextIP := addr p0 ((0 + ?N) mod ?N), allocated := addr p0 ` {..<0 + ?N}\<rparr>"
  have run: "UEIPPool_Allocate_times ?N p0 = (map (\<lambda>j. Inr (addr p0 j)) [0..<0 + ?N], ?pN)"
    using ok nx al by (intro fresh_run) simp_all
  have invN: "pool_inv ?pN" unfolding pool_inv_addr using ok Npos by auto
  obtain r pL where last: "UEIPPool_Allocate ?pN = (r, pL)" by (cases "UEIPPool_Allocate ?pN")
  have "r = Inl (PoolExhausted ?N)"
  proof (cases r)
    case (Inr a)
    with last invN have "a \<notin> allocated ?pN \<and> Contains ?pN a \<and> a \<noteq> cidr_IP ?pN"
      using UEIPPool_Allocate_Inr[of ?pN a pL] by simp
    moreover have "Contains ?pN a \<and> a \<noteq> cidr_IP ?pN \<longleftrightarrow> (\<exists>j<capacity ?pN. a = addr ?pN j)"
      using ok by (intro block_iff_addr) simp
    ultimately show ?thesis by auto
  next
    case (Inl e)
    with last invN have "e = PoolExhausted (card (allocated ?pN))"
      using UEIPPool_Allocate_Inl[of ?pN e pL] by simp
    then show ?thesis using Inl addr_card[OF ok, of ?N] by simp
  qed
  with last have one: "UEIPPool_Allocate_times 1 ?pN = ([Inl (PoolExhausted ?N)], pL)" by simp
  show ?thesis unfolding UEIPPool_Allocate_times_add run prod.case one by simp
qed

lemmas pool_eval = NewUEIPPool_def UEIPPool_Allocate_def UEIPPool_Allocate_times_numeral
  scan.simps wrap_cursor_def Contains_def CIDRMask_def incrementIP_def ip4_def Let_def
  UEIPPool_Release_def Available_def UEIPPool_AllocatedCount_def mask_eq_exp_minus_1
  pool_30_def pool_32_def pool_0_def

lemma pool_30_new: "NewUEIPPool (ip4 10 60 0 0) 30 = Inr pool_30"
  by (simp add: pool_eval)

lemma pool_32_new: "NewUEIPPool (ip4 10 0 0 1) 32 = Inr pool_32"
  by (simp add: pool_eval)

lemma pool_0_new: "NewUEIPPool 0 0 = Inr pool_0"
  by (simp add: pool_eval)

lemma pool_30_run3:
  "UEIPPool_Allocate_times 3 pool_30 =
     ([Inr (ip4 10 60 0 1), Inr (ip4 10 60 0 2), Inr (ip4 10 60 0 3)], pool_30_full)"
  by (simp add: pool_eval pool_30_full_def cong: prod.case_cong_weak)

lemma pool_30_full_Allocate:
  "UEIPPool_Allocate pool_30_full = (Inl (PoolExhausted 3), pool_30_full)"
  by (simp add: pool_eval pool_30_full_def cong: prod.case_cong_weak)

lemma pool_32_first:
  "fst (UEIPPool_Allocate pool_32) = Inr (ip4 10 0 0 2) \<and> \<not> Contains pool_32 (ip4 10 0 0 2)
   \<and> capacity pool_32 = 0"
  by (simp add: pool_eval capacity_def)

lemma not_mask_32: "NOT (mask 32 :: 32 word) = 0"
  using mask_full[where 'a=32] by simp

lemma Contains_slash0: "cidr_ones p = 0 \<Longrightarrow> Contains p x"
  by (simp add: Contains_def CIDRMask_def not_mask_32)

lemma advance_slash0: "cidr_ones p = 0 \<Longrightarrow> advance p = p\<lparr>nextIP := nextIP p + 1\<rparr>"
  by (simp add: advance_def wrap_cursor_def Contains_slash0 incrementIP_def)

lemma of_nat_32_inj:
  assumes "i < 2 ^ 32" "j < 2 ^ 32" "(of_nat i :: 32 word) = of_nat j"
  shows "i = j"
  using assms by (simp add: word_of_nat_eq_iff take_bit_nat_eq_self)

lemma slash0_run:
  assumes "cidr_ones p = 0" "nextIP p = of_nat (Suc k)" "allocated p = of_nat ` {Suc 0..k}"
    and "k + n < 2 ^ 32"
  shows "UEIPPool_Allocate_times n p =
           (map (\<lambda>j. Inr (of_nat (Suc j))) [k..<k + n],
            p\<lparr>nextIP := of_nat (Suc (k + n)), allocated := of_nat ` {Suc 0..k + n}\<rparr>)"
  using assms
proof (induction n arbitrary: p k)
  case 0
  then show ?case by simp
next
  case (Suc n)
  have free: "nextIP p \<notin> allocated p"
  proof
    assume "nextIP p \<in> allocated p"
    then obtain i where i: "Suc 0 \<le> i" "i \<le> k" "(of_nat (Suc k) :: 32 word) = of_nat i"
      using Suc.prems(2,3) by auto
    have "Suc k = i"
      using Suc.prems(4) i(2) by (intro of_nat_32_inj[OF _ _ i(3)]) simp_all
    then show False using i(2) by simp
  qed
  let ?p1 = "advance (p\<lparr>allocated := insert (nextIP p) (allocated p)\<rparr>)"
  have step: "UEIPPool_Allocate p = (Inr (of_nat (Suc k)), ?p1)"
    using UEIPPool_Allocate_first[OF Contains_slash0[OF Suc.prems(1)] free] Suc.prems(2) by simp
  have ins: "insert (of_nat (Suc k) :: 32 word) (of_nat ` {Suc 0..k}) = of_nat ` {Suc 0..Suc k}"
    by (simp add: atLeastAtMostSuc_conv)
  have p1: "?p1 = p\<lparr>nextIP := of_nat (Suc (Suc k)), allocated := of_nat ` {Suc 0..Suc k}\<rparr>"
    using Suc.prems(1,2,3) ins by (simp add: advance_slash0)
  have IH: "UEIPPool_Allocate_times n ?p1 =
     (map (\<lambda>j. Inr (of_nat (Suc j))) [Suc k..<Suc k + n],
      ?p1\<lparr>nextIP := of_nat (Suc (Suc k + n)), allocated := of_nat ` {Suc 0..Suc k + n}\<rparr>)"
  proof (rule Suc.IH)
    show "cidr_ones ?p1 = 0" using Suc.prems(1) by simp
    show "nextIP ?p1 = of_nat (Suc (Suc k))" unfolding p1 by simp
    show "allocated ?p1 = of_nat ` {Suc 0..Suc k}" unfolding p1 by simp
    show "Suc k + n < 2 ^ 32" using Suc.prems(4) by simp
  qed
  have "[k..<k + Suc n] = k # [Suc k..<Suc k + n]" by (simp add: upt_conv_Cons)
  then show ?case using step IH unfolding p1 by (simp del: upt_Suc of_nat_Suc)
qed

lemma slash0_issues_network:
  "fst (UEIPPool_Allocate_times (2 ^ 32) pool_0) ! (2 ^ 32 - 1) = Inr 0"
proof -
  let ?n = "2 ^ 32 - 1 :: nat"
  let ?pn = "pool_0\<lparr>nextIP := of_nat (Suc (0 + ?n)), allocated := of_nat ` {Suc 0..0 + ?n}\<rparr>"
  have run: "UEIPPool_Allocate_times ?n pool_0 =
      (map (\<lambda>j. Inr (of_nat (Suc j))) [0..<0 + ?n], ?pn)"
    by (rule slash0_run) (simp_all add: pool_0_def)
  have cur: "nextIP ?pn = 0" by simp
  have free: "nextIP ?pn \<notin> allocated ?pn"
  proof
    assume "nextIP ?pn \<in> allocated ?pn"
    then obtain i where i: "Suc 0 \<le> i" "i \<le> ?n" "(of_nat 0 :: 32 word) = of_nat i"
      unfolding cur by auto
    have "0 = i" using i(2) by (intro of_nat_32_inj[OF _ _ i(3)]) simp_all
    then show False using i(1) by simp
  qed
  have "cidr_ones ?pn = 0" by (simp add: pool_0_def)
  from UEIPPool_Allocate_first[OF Contains_slash0[OF this] free]
  have last: "fst (UEIPPool_Allocate_times 1 ?pn) = [Inr 0]"
    unfolding cur by (simp add: case_prod_unfold)
  have "(2 ^ 32 :: nat) = ?n + 1" by simp
  then have "fst (UEIPPool_Allocate_times (2 ^ 32) pool_0) =
      fst (UEIPPool_Allocate_times (?n + 1) pool_0)" by (simp only:)
  also have "\<dots> = map (\<lambda>j. Inr (of_nat (Suc j))) [0..<0 + ?n] @ [Inr 0]"
    unfolding UEIPPool_Allocate_times_add run prod.case using last
    by (simp add: case_prod_unfold del: UEIPPool_Allocate_times.simps)
  finally show ?thesis by (simp add: nth_append del: UEIPPool_Allocate_times.simps)
qed


lemma pool_inv_preserved:
  "(1 \<le> ones \<and> ones \<le> 31 \<and> NewUEIPPool ip ones = Inr p0 \<longrightarrow> pool_inv p0) \<and>
   (pool_inv p \<longrightarrow> pool_inv (snd (UEIPPool_Allocate p)) \<and> pool_inv (UEIPPool_Release x p))"
proof (intro conjI impI)
  assume "1 \<le> ones \<and> ones \<le> 31 \<and> NewUEIPPool ip ones = Inr p0"
  then show "pool_inv p0" using NewUEIPPool_inv by blast
next
  assume inv: "pool_inv p"
  obtain r p' where al: "UEIPPool_Allocate p = (r, p')" by (cases "UEIPPool_Allocate p")
  show "pool_inv (snd (UEIPPool_Allocate p))"
  proof (cases r)
    case (Inl e)
    then show ?thesis using UEIPPool_Allocate_Inl[OF inv, of e p'] al by simp
  next
    case (Inr a)
    then show ?thesis using UEIPPool_Allocate_Inr[OF inv, of a p'] al by simp
  qed
next
  assume "pool_inv p"
  then show "pool_inv (UEIPPool_Release x p)" by simp
qed

text \<open>
  C7. For a pool whose prefix length is between 1 and 31 (in a state that
  \<^verbatim>\<open>NewUEIPPool\<close>, \<^verbatim>\<open>Allocate\<close> and \<^verbatim>\<open>Release\<close> can reach, \<open>pool_inv\<close>): a call of
  \<^verbatim>\<open>Allocate\<close> fails only when every address of the block other than the network
  address is held, and the error reports the number of held addresses; and from a fresh
  pool, with \<open>N = 2^(32 - prefixlen) - 1\<close> the number of those addresses, the first \<open>N\<close>
  calls succeed (returning network + 1, ..., network + N) and call \<open>N + 1\<close> fails with the
  pool-exhausted error.
\<close>

theorem UEIPPool_exhaustion:
  "(pool_inv p \<and> UEIPPool_Allocate p = (Inl e, p') \<longrightarrow>
      (\<forall>a. Contains p a \<and> a \<noteq> cidr_IP p \<longrightarrow> a \<in> allocated p) \<and>
      e = PoolExhausted (card (allocated p))) \<and>
   (1 \<le> ones \<and> ones \<le> 31 \<and> NewUEIPPool ip ones = Inr p0 \<longrightarrow>
      fst (UEIPPool_Allocate_times (capacity p0 + 1) p0) =
        map (\<lambda>j. Inr (addr p0 j)) [0..<capacity p0] @ [Inl (PoolExhausted (capacity p0))])"
proof (intro conjI impI)
  assume a: "pool_inv p \<and> UEIPPool_Allocate p = (Inl e, p')"
  then show "\<forall>a. Contains p a \<and> a \<noteq> cidr_IP p \<longrightarrow> a \<in> allocated p"
    using UEIPPool_Allocate_Inl[of p e p'] by blast
  from a show "e = PoolExhausted (card (allocated p))"
    using UEIPPool_Allocate_Inl[of p e p'] by blast
next
  assume "1 \<le> ones \<and> ones \<le> 31 \<and> NewUEIPPool ip ones = Inr p0"
  then show "fst (UEIPPool_Allocate_times (capacity p0 + 1) p0) =
        map (\<lambda>j. Inr (addr p0 j)) [0..<capacity p0] @ [Inl (PoolExhausted (capacity p0))]"
    using fresh_exhaustion by blast
qed

lemma pool_30_inv: "pool_inv pool_30_full"
  by (simp add: pool_inv_def pool_30_full_def Contains_def CIDRMask_def ip4_def mask_eq_exp_minus_1)

theorem UEIPPool_exhaustion_witness:
  "pool_inv pool_30_full \<and>
   UEIPPool_Allocate pool_30_full = (Inl (PoolExhausted 3), pool_30_full) \<and>
   Contains pool_30_full (ip4 10 60 0 3) \<and> ip4 10 60 0 3 \<noteq> cidr_IP pool_30_full \<and>
   ip4 10 60 0 3 \<in> allocated pool_30_full \<and>
   NewUEIPPool (ip4 10 60 0 0) 30 = Inr pool_30 \<and> capacity pool_30 = 3 \<and>
   fst (UEIPPool_Allocate_times (capacity pool_30 + 1) pool_30) =
     [Inr (ip4 10 60 0 1), Inr (ip4 10 60 0 2), Inr (ip4 10 60 0 3), Inl (PoolExhausted 3)]"
proof -
  have full: "UEIPPool_Allocate pool_30_full = (Inl (PoolExhausted 3), pool_30_full)"
    by (rule pool_30_full_Allocate)
  have con: "Contains pool_30_full (ip4 10 60 0 3) \<and> ip4 10 60 0 3 \<noteq> cidr_IP pool_30_full"
    by (simp add: pool_30_full_def Contains_def CIDRMask_def ip4_def mask_eq_exp_minus_1)
  have cap: "capacity pool_30 = 3" by (simp add: capacity_def pool_30_def)
  have hyp: "1 \<le> (30::nat) \<and> (30::nat) \<le> 31 \<and> NewUEIPPool (ip4 10 60 0 0) 30 = Inr pool_30"
    using pool_30_new by simp
  have addrs: "map (\<lambda>j. Inr (addr pool_30 j) :: error + 32 word) [0..<3] =
      [Inr (ip4 10 60 0 1), Inr (ip4 10 60 0 2), Inr (ip4 10 60 0 3)]"
    by (simp add: addr_def pool_30_def ip4_def upt_rec)
  from UEIPPool_exhaustion[of pool_30_full "PoolExhausted 3" pool_30_full 30 "ip4 10 60 0 0" pool_30]
    pool_30_inv full con hyp
  have "ip4 10 60 0 3 \<in> allocated pool_30_full"
    and "fst (UEIPPool_Allocate_times (capacity pool_30 + 1) pool_30) =
        map (\<lambda>j. Inr (addr pool_30 j)) [0..<capacity pool_30] @ [Inl (PoolExhausted (capacity pool_30))]"
    by blast+
  then show ?thesis using pool_30_inv full con hyp cap addrs by simp
qed

text \<open>
  The claim as stated fails in three places. Read to the letter, "every address in the
  CIDR block" includes the network address, which is never a candidate: the exhausted
  \<^verbatim>\<open>/30\<close> pool fails while \<^verbatim>\<open>10.60.0.0\<close> is in the block and free. A \<^verbatim>\<open>/32\<close> block
  holds no address but the network address (\<open>N = 0\<close>), yet the first call succeeds and returns an
  address outside the block. On \<^verbatim>\<open>0.0.0.0/0\<close> (\<open>N = 2^32 - 1\<close>) call \<open>N + 1\<close> succeeds: the
  cursor never leaves the block and comes round to the network address.
\<close>

theorem UEIPPool_exhaustion_counterexample:
  "UEIPPool_Allocate pool_30_full = (Inl (PoolExhausted 3), pool_30_full) \<and>
   Contains pool_30_full (ip4 10 60 0 0) \<and> ip4 10 60 0 0 \<notin> allocated pool_30_full \<and>
   NewUEIPPool (ip4 10 0 0 1) 32 = Inr pool_32 \<and> capacity pool_32 = 0 \<and>
   fst (UEIPPool_Allocate pool_32) = Inr (ip4 10 0 0 2) \<and>
   \<not> Contains pool_32 (ip4 10 0 0 2) \<and>
   NewUEIPPool 0 0 = Inr pool_0 \<and> capacity pool_0 = 2 ^ 32 - 1 \<and>
   fst (UEIPPool_Allocate_times (2 ^ 32) pool_0) ! (2 ^ 32 - 1) = Inr 0"
proof -
  have a: "UEIPPool_Allocate pool_30_full = (Inl (PoolExhausted 3), pool_30_full)"
    by (rule pool_30_full_Allocate)
  have b: "Contains pool_30_full (ip4 10 60 0 0) \<and> ip4 10 60 0 0 \<notin> allocated pool_30_full"
    by (simp add: pool_30_full_def Contains_def CIDRMask_def ip4_def mask_eq_exp_minus_1)
  have c: "capacity pool_0 = 2 ^ 32 - 1" by (simp add: capacity_def pool_0_def)
  show ?thesis
    using a b c pool_32_new pool_32_first pool_0_new slash0_issues_network by blast
qed

lemma slash30_fresh:
  assumes "NewUEIPPool ip 30 = Inr p0"
  shows "Available p0 = 2 \<and>
         fst (UEIPPool_Allocate_times 3 p0) =
           [Inr (cidr_IP p0 + 1), Inr (cidr_IP p0 + 2), Inr (cidr_IP p0 + 3)] \<and>
         cidr_IP p0 + 3 = (cidr_IP p0 OR NOT (CIDRMask (cidr_ones p0))) \<and>
         Available (snd (UEIPPool_Allocate_times 3 p0)) = 0 \<and>
         UEIPPool_AllocatedCount (snd (UEIPPool_Allocate_times 3 p0)) = 3"
proof -
  have h: "(1::nat) \<le> 30" "(30::nat) \<le> 31" by simp_all
  from NewUEIPPool_inv[OF h assms] have inv0: "pool_inv p0" and nx: "nextIP p0 = addr p0 0"
    and al: "allocated p0 = {}" and ones: "cidr_ones p0 = 30" by simp_all
  have ok: "block_ok p0" using inv0 by (simp add: pool_inv_addr)
  have cap: "capacity p0 = 3" by (simp add: capacity_def ones)
  have run: "UEIPPool_Allocate_times 3 p0 =
      (map (\<lambda>j. Inr (addr p0 j)) [0..<0 + 3],
       p0\<lparr>nextIP := addr p0 ((0 + 3) mod capacity p0), allocated := addr p0 ` {..<0 + 3}\<rparr>)"
    using ok nx al cap by (intro fresh_run) simp_all
  have lst: "map (\<lambda>j. Inr (addr p0 j) :: error + 32 word) [0..<0 + 3] =
      [Inr (cidr_IP p0 + 1), Inr (cidr_IP p0 + 2), Inr (cidr_IP p0 + 3)]"
    by (simp add: addr_def upt_rec add.assoc)
  have card3: "card (addr p0 ` {..<3}) = 3" using ok cap by (intro addr_card) simp_all
  have a0: "Available p0 = 2" by (simp add: Available_def ones al)
  have a3: "Available (snd (UEIPPool_Allocate_times 3 p0)) = 0"
    unfolding run using card3 by (simp add: Available_def ones)
  have c3: "UEIPPool_AllocatedCount (snd (UEIPPool_Allocate_times 3 p0)) = 3"
    unfolding run using card3 by (simp add: UEIPPool_AllocatedCount_def)
  have nm: "NOT (CIDRMask 30) = (mask 2 :: 32 word)" by (simp add: CIDRMask_def)
  have al2: "cidr_IP p0 AND NOT (mask 2) = cidr_IP p0"
    using ok by (simp add: block_ok_def ones CIDRMask_def)
  have "cidr_IP p0 AND (3::32 word) = 0"
    using aligned_and_low_zero[OF al2, of 3] by (simp add: take_bit_eq_mask mask_eq_exp_minus_1)
  then have "cidr_IP p0 + 3 = cidr_IP p0 OR 3" by (rule disjunctive_add_eq_or)
  then have bc: "cidr_IP p0 + 3 = (cidr_IP p0 OR NOT (CIDRMask (cidr_ones p0)))"
    by (simp add: ones nm mask_eq_exp_minus_1)
  show ?thesis using a0 a3 c3 bc run lst by simp
qed

text \<open>
  C10. \<^verbatim>\<open>Available()\<close> is \<open>max(0, 2^(32 - prefixlen) - AllocatedCount() - 2)\<close>: it depends
  on the prefix length and on how many addresses are held, not on which. The broadcast
  address is issuable: every fresh \<^verbatim>\<open>/30\<close> pool reports 2 available, yet three calls of
  \<^verbatim>\<open>Allocate\<close> succeed on it (returning network + 1, network + 2 and network + 3, the
  last being the broadcast address, the network address with all host bits set), and with
  the three held \<^verbatim>\<open>Available()\<close> is 0 while \<^verbatim>\<open>AllocatedCount()\<close> is 3.
\<close>

theorem Available_formula_and_slash30:
  "Available p = max 0 (2 ^ (32 - cidr_ones p) - UEIPPool_AllocatedCount p - 2) \<and>
   (cidr_ones p = cidr_ones q \<and> UEIPPool_AllocatedCount p = UEIPPool_AllocatedCount q \<longrightarrow>
      Available p = Available q) \<and>
   (NewUEIPPool ip 30 = Inr p0 \<longrightarrow>
      Available p0 = 2 \<and>
      fst (UEIPPool_Allocate_times 3 p0) =
        [Inr (cidr_IP p0 + 1), Inr (cidr_IP p0 + 2), Inr (cidr_IP p0 + 3)] \<and>
      cidr_IP p0 + 3 = (cidr_IP p0 OR NOT (CIDRMask (cidr_ones p0))) \<and>
      Available (snd (UEIPPool_Allocate_times 3 p0)) = 0 \<and>
      UEIPPool_AllocatedCount (snd (UEIPPool_Allocate_times 3 p0)) = 3)"
proof (intro conjI impI)
  show "Available p = max 0 (2 ^ (32 - cidr_ones p) - UEIPPool_AllocatedCount p - 2)"
    by (simp add: Available_def UEIPPool_AllocatedCount_def Let_def max_def)
next
  assume "cidr_ones p = cidr_ones q \<and> UEIPPool_AllocatedCount p = UEIPPool_AllocatedCount q"
  then show "Available p = Available q"
    by (simp add: Available_def UEIPPool_AllocatedCount_def Let_def)
next
  assume new: "NewUEIPPool ip 30 = Inr p0"
  from slash30_fresh[OF new] show "Available p0 = 2" by simp
  from slash30_fresh[OF new] show "fst (UEIPPool_Allocate_times 3 p0) =
        [Inr (cidr_IP p0 + 1), Inr (cidr_IP p0 + 2), Inr (cidr_IP p0 + 3)]" by simp
  from slash30_fresh[OF new]
  show "cidr_IP p0 + 3 = (cidr_IP p0 OR NOT (CIDRMask (cidr_ones p0)))" by simp
  from slash30_fresh[OF new] show "Available (snd (UEIPPool_Allocate_times 3 p0)) = 0" by simp
  from slash30_fresh[OF new]
  show "UEIPPool_AllocatedCount (snd (UEIPPool_Allocate_times 3 p0)) = 3" by simp
qed

theorem Available_formula_and_slash30_witness:
  "NewUEIPPool (ip4 10 60 0 0) 30 = Inr pool_30 \<and>
   Available pool_30 = 2 \<and>
   fst (UEIPPool_Allocate_times 3 pool_30) =
     [Inr (cidr_IP pool_30 + 1), Inr (cidr_IP pool_30 + 2), Inr (cidr_IP pool_30 + 3)] \<and>
   snd (UEIPPool_Allocate_times 3 pool_30) = pool_30_full \<and>
   Available pool_30_full = 0 \<and>
   UEIPPool_AllocatedCount pool_30_full = 3 \<and>
   Available pool_30_full = Available (pool_30_full\<lparr>nextIP := 0\<rparr>)"
proof -
  let ?q = "pool_30_full\<lparr>nextIP := 0\<rparr>"
  have same: "cidr_ones pool_30_full = cidr_ones ?q \<and>
      UEIPPool_AllocatedCount pool_30_full = UEIPPool_AllocatedCount ?q"
    by (simp add: UEIPPool_AllocatedCount_def)
  note inst = Available_formula_and_slash30 [of pool_30_full ?q "ip4 10 60 0 0" pool_30]
  have ind: "Available pool_30_full = Available ?q"
    using inst same by blast
  have fresh: "Available pool_30 = 2 \<and>
      fst (UEIPPool_Allocate_times 3 pool_30) =
        [Inr (cidr_IP pool_30 + 1), Inr (cidr_IP pool_30 + 2), Inr (cidr_IP pool_30 + 3)] \<and>
      Available (snd (UEIPPool_Allocate_times 3 pool_30)) = 0 \<and>
      UEIPPool_AllocatedCount (snd (UEIPPool_Allocate_times 3 pool_30)) = 3"
    using inst pool_30_new by blast
  have sn: "snd (UEIPPool_Allocate_times 3 pool_30) = pool_30_full"
    by (simp only: pool_30_run3 snd_conv)
  show ?thesis using fresh ind pool_30_new unfolding sn by blast
qed

lemma SEID_release_then_allocate:
  assumes "strategy s = ''sequential''" "nextSEID s \<noteq> 0" "nextSEID s \<notin> usedSEIDs s - {x}"
  shows "fst (SEIDAllocator_Allocate rnd (SEIDAllocator_Release x s)) = Inr (nextSEID s)"
  using assms
  by (simp add: SEIDAllocator_Allocate_def SEIDAllocator_Release_def sequential_loop_first)

lemma UEIPPool_release_then_allocate:
  assumes "pool_inv p" "Contains p x" "x \<noteq> cidr_IP p"
    and "\<forall>a. Contains p a \<and> a \<noteq> cidr_IP p \<and> a \<noteq> x \<longrightarrow> a \<in> allocated p"
  shows "fst (UEIPPool_Allocate (UEIPPool_Release x p)) = Inr x"
proof -
  let ?q = "UEIPPool_Release x p"
  have inv: "pool_inv ?q" using assms(1) by simp
  have q: "allocated ?q = allocated p - {x}" "Contains ?q = Contains p" "cidr_IP ?q = cidr_IP p"
    by (simp_all add: UEIPPool_Release_def)
  obtain r q' where al: "UEIPPool_Allocate ?q = (r, q')" by (cases "UEIPPool_Allocate ?q")
  show ?thesis
  proof (cases r)
    case (Inl e)
    with al have "\<forall>a. Contains ?q a \<and> a \<noteq> cidr_IP ?q \<longrightarrow> a \<in> allocated ?q"
      using UEIPPool_Allocate_Inl[OF inv, of e q'] by simp
    then have "Contains ?q x \<and> x \<noteq> cidr_IP ?q \<longrightarrow> x \<in> allocated ?q" by (rule spec)
    then have "x \<in> allocated ?q" using assms(2,3) by (simp only: q) simp
    then show ?thesis by (simp add: q(1))
  next
    case (Inr a)
    with al have "a \<notin> allocated ?q \<and> Contains ?q a \<and> a \<noteq> cidr_IP ?q"
      using UEIPPool_Allocate_Inr[OF inv, of a q'] by simp
    then have "a = x" using assms(4) q by auto
    then show ?thesis using al Inr by simp
  qed
qed

text \<open>
  C3. For a pool (prefix length 1 to 31) in which every address of the block other than
  the network address is held, releasing one of them, \<open>x\<close>, and allocating again returns
  exactly \<open>x\<close>. The sequential SEID allocator does not behave so: after releasing any
  value \<open>x\<close>, the next \<^verbatim>\<open>Allocate\<close> returns the current value of the counter \<^verbatim>\<open>nextSEID\<close>
  (when that is not 0 and not held), which is the released value only if the counter stands on it.
\<close>

theorem release_then_allocate:
  "(pool_inv p \<and> Contains p x \<and> x \<noteq> cidr_IP p \<and>
      (\<forall>a. Contains p a \<and> a \<noteq> cidr_IP p \<and> a \<noteq> x \<longrightarrow> a \<in> allocated p) \<longrightarrow>
      fst (UEIPPool_Allocate (UEIPPool_Release x p)) = Inr x) \<and>
   (strategy s = ''sequential'' \<and> nextSEID s \<noteq> 0 \<and> nextSEID s \<notin> usedSEIDs s - {y} \<longrightarrow>
      fst (SEIDAllocator_Allocate rnd (SEIDAllocator_Release y s)) = Inr (nextSEID s))"
  using UEIPPool_release_then_allocate SEID_release_then_allocate by blast

theorem release_then_allocate_witness:
  "pool_inv pool_30_full \<and> Contains pool_30_full (ip4 10 60 0 2) \<and>
   ip4 10 60 0 2 \<noteq> cidr_IP pool_30_full \<and>
   fst (UEIPPool_Allocate (UEIPPool_Release (ip4 10 60 0 2) pool_30_full)) = Inr (ip4 10 60 0 2) \<and>
   fst (SEIDAllocator_Allocate zero_draws (SEIDAllocator_Release 1
          \<lparr>strategy = ''sequential'', nextSEID = 3, usedSEIDs = {1, 2}\<rparr>)) = Inr 3"
proof -
  let ?s = "\<lparr>strategy = ''sequential'', nextSEID = 3, usedSEIDs = {1, 2 :: 64 word}\<rparr>"
  have c: "Contains pool_30_full (ip4 10 60 0 2) \<and> ip4 10 60 0 2 \<noteq> cidr_IP pool_30_full"
    by (simp add: pool_30_full_def Contains_def CIDRMask_def ip4_def mask_eq_exp_minus_1)
  have others: "\<forall>a. Contains pool_30_full a \<and> a \<noteq> cidr_IP pool_30_full \<and> a \<noteq> ip4 10 60 0 2
      \<longrightarrow> a \<in> allocated pool_30_full"
    using UEIPPool_Allocate_Inl[OF pool_30_inv pool_30_full_Allocate] by blast
  have s: "strategy ?s = ''sequential'' \<and> nextSEID ?s \<noteq> 0 \<and> nextSEID ?s \<notin> usedSEIDs ?s - {1}"
    by simp
  from release_then_allocate[of pool_30_full "ip4 10 60 0 2" ?s 1 zero_draws]
    pool_30_inv c others s
  show ?thesis by simp
qed

text \<open>
  The claim as stated fails for the sequential SEID allocator: on a fresh allocator with
  start value 1, allocate (1), release 1, allocate again: the result is 2, not 1.
\<close>

theorem release_then_allocate_counterexample:
  "SEIDAllocator_Allocate zero_draws (NewSEIDAllocator ''sequential'' 1) =
     (Inr 1, \<lparr>strategy = ''sequential'', nextSEID = 2, usedSEIDs = {1}\<rparr>) \<and>
   fst (SEIDAllocator_Allocate zero_draws (SEIDAllocator_Release 1
          \<lparr>strategy = ''sequential'', nextSEID = 2, usedSEIDs = {1}\<rparr>)) = Inr 2"
  by (simp add: SEIDAllocator_Allocate_def SEIDAllocator_Release_def NewSEIDAllocator_def
      sequential_loop.simps Let_def)

text \<open>
  What holds of the first allocation and of distinctness, on every pool: the first
  \<^verbatim>\<open>Allocate\<close> on a fresh pool returns the network address plus one, and the
  addresses returned by any run of calls without a \<^verbatim>\<open>Release\<close> are pairwise distinct.
  With a prefix length from 1 to 31 the network address is never returned
  (\<open>UEIPPool_never_network\<close>).
\<close>

lemma UEIPPool_Allocate_grows:
  "UEIPPool_Allocate p = (r, p') \<Longrightarrow>
     (case r of Inr a \<Rightarrow> a \<notin> allocated p \<and> allocated p' = insert a (allocated p)
              | Inl e \<Rightarrow> allocated p' = allocated p)"
proof -
  have scan_grows: "scan s t c q = (r, q') \<Longrightarrow>
     (case r of Inr a \<Rightarrow> a \<notin> allocated q \<and> allocated q' = insert a (allocated q)
              | Inl e \<Rightarrow> allocated q' = allocated q)" for s t c q q'
  proof (induction s t c q rule: scan.induct)
    case (1 s t c q)
    show ?case
    proof (cases "nextIP q \<notin> allocated q")
      case True
      then have "scan s t c q =
          (Inr (nextIP q), advance (q\<lparr>allocated := insert (nextIP q) (allocated q)\<rparr>))"
        by (subst scan_unfold) simp
      with "1.prems" True show ?thesis by auto
    next
      case False
      then have unf: "scan s t c q =
        (if c + 1 \<ge> t - 1 \<or> nextIP (advance q) = s
         then (Inl (PoolExhausted (card (allocated q))), advance q)
         else scan s t (c + 1) (advance q))"
        by (subst scan_unfold) simp
      show ?thesis
      proof (cases "c + 1 \<ge> t - 1 \<or> nextIP (advance q) = s")
        case True
        with unf "1.prems" show ?thesis by auto
      next
        case stop: False
        with unf "1.prems" have rec: "scan s t (c + 1) (advance q) = (r, q')" by simp
        have "case r of Inr a \<Rightarrow> a \<notin> allocated (advance q) \<and>
                  allocated q' = insert a (allocated (advance q))
              | Inl e \<Rightarrow> allocated q' = allocated (advance q)"
        proof (rule "1.IH"[of "advance q" "c + 1"])
          show "\<not> nextIP q \<notin> allocated q" using False by simp
          show "advance q = wrap_cursor (q\<lparr>nextIP := incrementIP (nextIP q)\<rparr>)"
            by (simp add: advance_def)
          show "c + 1 = c + 1" by simp
          show "\<not> (t - 1 \<le> c + 1 \<or> nextIP (advance q) = s)" using stop by simp
          show "scan s t (c + 1) (advance q) = (r, q')" by (rule rec)
        qed
        then show ?thesis by (cases r) simp_all
      qed
    qed
  qed
  assume "UEIPPool_Allocate p = (r, p')"
  then have "scan (nextIP (wrap_cursor p)) (2 ^ (32 - cidr_ones (wrap_cursor p))) 0 (wrap_cursor p)
      = (r, p')"
    by (simp add: UEIPPool_Allocate_def Let_def)
  from scan_grows[OF this] show ?thesis by (cases r) simp_all
qed

lemma UEIPPool_run_distinct:
  "UEIPPool_Allocate_times n p = (rs, p') \<Longrightarrow>
     distinct [a. Inr a \<leftarrow> rs] \<and> allocated p \<subseteq> allocated p' \<and>
     (\<forall>a. Inr a \<in> set rs \<longrightarrow> a \<in> allocated p' \<and> a \<notin> allocated p)"
proof (induction n arbitrary: p rs p')
  case 0
  then show ?case by simp
next
  case (Suc n)
  obtain r p1 where a1: "UEIPPool_Allocate p = (r, p1)" by (cases "UEIPPool_Allocate p")
  obtain rs1 p2 where a2: "UEIPPool_Allocate_times n p1 = (rs1, p2)"
    by (cases "UEIPPool_Allocate_times n p1")
  from Suc.prems a1 a2 have rs: "rs = r # rs1" and p': "p' = p2" by simp_all
  note IH = Suc.IH[OF a2]
  note g = UEIPPool_Allocate_grows[OF a1]
  show ?case
  proof (cases r)
    case (Inl e)
    with g IH show ?thesis unfolding rs p' by auto
  next
    case (Inr a)
    with g IH show ?thesis unfolding rs p' by auto
  qed
qed

lemma UEIPPool_first_and_distinct:
  assumes "NewUEIPPool ip ones = Inr p0"
  shows "fst (UEIPPool_Allocate p0) = Inr (cidr_IP p0 + 1) \<and>
         distinct [a. Inr a \<leftarrow> fst (UEIPPool_Allocate_times n p0)]"
proof -
  have p0: "p0 = \<lparr>cidr_IP = ip AND CIDRMask ones, cidr_ones = ones,
                nextIP = incrementIP (ip AND CIDRMask ones), allocated = {}\<rparr>"
    using assms by (simp add: NewUEIPPool_def split: if_splits)
  have w: "nextIP (wrap_cursor p0) = cidr_IP p0 + 1" "allocated p0 = {}"
    by (simp_all add: p0 wrap_cursor_def incrementIP_def)
  have "fst (UEIPPool_Allocate p0) = Inr (cidr_IP p0 + 1)"
    unfolding UEIPPool_Allocate_def Let_def by (subst scan_unfold) (simp add: w)
  moreover have "distinct [a. Inr a \<leftarrow> fst (UEIPPool_Allocate_times n p0)]"
    using UEIPPool_run_distinct[of n p0] by (cases "UEIPPool_Allocate_times n p0") simp
  ultimately show ?thesis by simp
qed

lemma UEIPPool_never_network:
  assumes "pool_inv p" "UEIPPool_Allocate p = (Inr a, p')"
  shows "a \<noteq> cidr_IP p"
  using UEIPPool_Allocate_Inr[OF assms] by simp

text \<open>
  C8. The first \<^verbatim>\<open>Allocate\<close> on a fresh pool returns the network address plus one, the
  network address itself is never issued, and the addresses returned before any
  \<^verbatim>\<open>Release\<close> are pairwise distinct. The code breaks the middle part on the pool
  \<^verbatim>\<open>0.0.0.0/0\<close>: the cursor never leaves the block, so the wrap to network + 1 is never
  taken; after \<open>2^32 - 1\<close> allocations the cursor stands on the network address
  \<^verbatim>\<open>0.0.0.0\<close>, and call \<open>2^32\<close> returns it.
\<close>

theorem UEIPPool_slash0_issues_network_address:
  "NewUEIPPool 0 0 = Inr pool_0 \<and>
   fst (UEIPPool_Allocate pool_0) = Inr (cidr_IP pool_0 + 1) \<and>
   fst (UEIPPool_Allocate_times (2 ^ 32) pool_0) ! (2 ^ 32 - 1) = Inr (cidr_IP pool_0)"
proof -
  have "cidr_IP pool_0 = 0" by (simp add: pool_0_def)
  then show ?thesis
    using pool_0_new slash0_issues_network UEIPPool_first_and_distinct[OF pool_0_new] by simp
qed

section \<open>TransactionTracker: properties\<close>

lemma tracker_inv_New: "tracker_inv (NewTransactionTracker ms mr)"
  by (simp add: tracker_inv_def map_ok_def chan_ok_def seqs_distinct_def results_ok_def
      NewTransactionTracker_def)

lemma Track_eq:
  "Track s d now t =
     (next_ref t,
      t\<lparr>pending := (pending t)(s \<mapsto> next_ref t),
        heap := (heap t)(next_ref t :=
                  \<lparr>SeqNum = s, RequestData = d, SentAt = now, RetryCount = 0,
                   ResultCh = next_ref t\<rparr>),
        chans := (chans t)(next_ref t := []),
        next_ref := Suc (next_ref t)\<rparr>)"
  by (simp add: Track_def Let_def)

lemma used_seqs_Track: "used_seqs (snd (Track s d now t)) = insert s (used_seqs t)"
  by (auto simp: used_seqs_def Track_eq lessThan_Suc)

lemma pending_None_if_unused:
  assumes "map_ok t" "s \<notin> used_seqs t"
  shows "pending t s = None"
proof (cases "pending t s")
  case (Some r)
  then have "r < next_ref t" "SeqNum (heap t r) = s" using assms(1) by (auto simp: map_ok_def)
  then have "s \<in> used_seqs t" unfolding used_seqs_def by blast
  then show ?thesis using assms(2) by simp
qed simp

lemma tracker_inv_Track:
  assumes "tracker_inv t" "s \<notin> used_seqs t"
  shows "tracker_inv (snd (Track s d now t))"
proof -
  let ?n = "next_ref t"
  let ?t' = "snd (Track s d now t)"
  have fresh: "\<And>r. r < ?n \<Longrightarrow> SeqNum (heap t r) \<noteq> s"
    using assms(2) by (auto simp: used_seqs_def)
  have m: "map_ok t" and c: "chan_ok t" and sd: "seqs_distinct t" and ro: "results_ok t"
    using assms(1) by (simp_all add: tracker_inv_def)
  have hp: "\<And>r. r < ?n \<Longrightarrow> heap ?t' r = heap t r" by (simp add: Track_eq)
  have hn: "SeqNum (heap ?t' ?n) = s" "ResultCh (heap ?t' ?n) = ?n" by (simp_all add: Track_eq)
  have nx: "next_ref ?t' = Suc ?n" by (simp add: Track_eq)
  have pd: "\<And>s'. pending ?t' s' = (if s' = s then Some ?n else pending t s')"
    by (simp add: Track_eq)
  have ch: "\<And>r. chans ?t' r = (if r = ?n then [] else chans t r)" by (simp add: Track_eq)
  have mr: "from_Resolve_timeout_or_CancelAll ?t' = from_Resolve_timeout_or_CancelAll t"
    by (simp add: Track_eq from_Resolve_timeout_or_CancelAll_def fun_eq_iff)
  have "map_ok ?t'"
    unfolding map_ok_def nx
  proof (intro allI impI)
    fix s' r assume a: "pending ?t' s' = Some r"
    show "r < Suc ?n \<and> SeqNum (heap ?t' r) = s'"
    proof (cases "s' = s")
      case True
      then show ?thesis using a hn by (simp add: pd)
    next
      case False
      then have "pending t s' = Some r" using a by (simp add: pd)
      then have "r < ?n \<and> SeqNum (heap t r) = s'" using m by (simp add: map_ok_def)
      then show ?thesis using hp by simp
    qed
  qed
  moreover have "chan_ok ?t'"
    unfolding chan_ok_def nx using c hp hn by (auto simp: chan_ok_def less_Suc_eq)
  moreover have "seqs_distinct ?t'"
    unfolding seqs_distinct_def nx
  proof (intro allI impI)
    fix r r' assume a: "r < Suc ?n" "r' < Suc ?n" "SeqNum (heap ?t' r) = SeqNum (heap ?t' r')"
    show "r = r'"
    proof (cases "r = ?n")
      case True
      show ?thesis
      proof (rule ccontr)
        assume "r \<noteq> r'"
        then have "r' < ?n" using a(2) True by simp
        then show False using a(3) True hn hp fresh by auto
      qed
    next
      case False
      then have r: "r < ?n" using a(1) by simp
      show ?thesis
      proof (cases "r' = ?n")
        case True
        then show ?thesis using a(3) hn hp r fresh by auto
      next
        case False
        then have "r' < ?n" using a(2) by simp
        then show ?thesis using a(3) r hp sd by (simp add: seqs_distinct_def)
      qed
    qed
  qed
  moreover have "results_ok ?t'"
    unfolding results_ok_def nx
  proof (intro allI impI)
    fix r assume a: "r < Suc ?n"
    show "(is_pending ?t' r \<longrightarrow> chans ?t' r = []) \<and>
          (\<not> is_pending ?t' r \<longrightarrow> (\<exists>v. chans ?t' r = [v] \<and> from_Resolve_timeout_or_CancelAll ?t' v))"
    proof (cases "r = ?n")
      case True
      then show ?thesis using hn by (simp add: is_pending_def pd ch)
    next
      case False
      then have r: "r < ?n" using a by simp
      have "is_pending ?t' r = is_pending t r"
        using r fresh hp by (simp add: is_pending_def pd)
      then show ?thesis using ro r False by (simp add: results_ok_def ch mr)
    qed
  qed
  ultimately show ?thesis by (simp add: tracker_inv_def)
qed


lemma pending_cases:
  assumes "map_ok t" "seqs_distinct t" "r < next_ref t"
  shows "pending t (SeqNum (heap t r)) = None \<or> pending t (SeqNum (heap t r)) = Some r"
proof (cases "pending t (SeqNum (heap t r))")
  case (Some r')
  then have "r' < next_ref t" "SeqNum (heap t r') = SeqNum (heap t r)"
    using assms(1) by (auto simp: map_ok_def)
  then have "r' = r" using assms(2,3) by (auto simp: seqs_distinct_def)
  then show ?thesis using Some by simp
qed simp

lemma fulfil_fields [simp]:
  "next_ref (fulfil r v t) = next_ref t" "heap (fulfil r v t) = heap t"
  "maxRetries (fulfil r v t) = maxRetries t" "retransmitted (fulfil r v t) = retransmitted t"
  "timeout (fulfil r v t) = timeout t"
  "pending (fulfil r v t) = (pending t)(SeqNum (heap t r) := None)"
  "chans (fulfil r v t) = (chans t)(r := chans t r @ [v])"
  by (simp_all add: fulfil_def)

lemma used_seqs_fulfil [simp]: "used_seqs (fulfil r v t) = used_seqs t"
  by (simp add: used_seqs_def)

lemma tracker_inv_fulfil:
  assumes "tracker_inv t" "r < next_ref t" "is_pending t r"
    and "from_Resolve_timeout_or_CancelAll t v"
  shows "tracker_inv (fulfil r v t)"
proof -
  let ?t' = "fulfil r v t"
  have m: "map_ok t" and c: "chan_ok t" and sd: "seqs_distinct t" and ro: "results_ok t"
    using assms(1) by (simp_all add: tracker_inv_def)
  have mr: "from_Resolve_timeout_or_CancelAll ?t' = from_Resolve_timeout_or_CancelAll t"
    by (simp add: from_Resolve_timeout_or_CancelAll_def fun_eq_iff)
  have "map_ok ?t'" using m by (auto simp: map_ok_def)
  moreover have "chan_ok ?t'" using c by (simp add: chan_ok_def)
  moreover have "seqs_distinct ?t'" using sd by (simp add: seqs_distinct_def)
  moreover have "results_ok ?t'"
    unfolding results_ok_def
  proof (intro allI impI)
    fix r' assume a: "r' < next_ref ?t'"
    then have r': "r' < next_ref t" by simp
    show "(is_pending ?t' r' \<longrightarrow> chans ?t' r' = []) \<and>
          (\<not> is_pending ?t' r' \<longrightarrow> (\<exists>v. chans ?t' r' = [v] \<and> from_Resolve_timeout_or_CancelAll ?t' v))"
    proof (cases "r' = r")
      case True
      have "chans t r = []" using ro assms(2,3) by (simp add: results_ok_def)
      then show ?thesis using True assms(4) by (simp add: is_pending_def mr)
    next
      case False
      then have "SeqNum (heap t r') \<noteq> SeqNum (heap t r)"
        using sd r' assms(2) by (auto simp: seqs_distinct_def)
      then have "is_pending ?t' r' = is_pending t r'" by (simp add: is_pending_def)
      then show ?thesis using ro r' False by (simp add: results_ok_def mr)
    qed
  qed
  ultimately show ?thesis by (simp add: tracker_inv_def)
qed

lemma Resolve_None: "pending t s = None \<Longrightarrow> Resolve s d now t = t"
  by (simp add: Resolve_def)

lemma Resolve_fulfil:
  assumes "map_ok t" "chan_ok t" "pending t s = Some r"
  shows "Resolve s d now t =
           fulfil r \<lparr>res_SeqNum = s, Response = d, ResponseTime = now - SentAt (heap t r),
                     Error = None\<rparr> t"
proof -
  have "r < next_ref t" "SeqNum (heap t r) = s" using assms(1,3) by (auto simp: map_ok_def)
  moreover from this have "ResultCh (heap t r) = r" using assms(2) by (simp add: chan_ok_def)
  ultimately show ?thesis using assms(3)
    by (simp add: Resolve_def Let_def chan_send_def fulfil_def)
qed

lemma cancel_one_None: "pending t s = None \<Longrightarrow> cancel_one s t = t"
  by (simp add: cancel_one_def)

lemma cancel_one_fulfil:
  assumes "map_ok t" "chan_ok t" "pending t s = Some r"
  shows "cancel_one s t =
           fulfil r \<lparr>res_SeqNum = s, Response = [], ResponseTime = 0, Error = Some Cancelled\<rparr> t"
proof -
  have "r < next_ref t" "SeqNum (heap t r) = s" using assms(1,3) by (auto simp: map_ok_def)
  moreover from this have "ResultCh (heap t r) = r" using assms(2) by (simp add: chan_ok_def)
  ultimately show ?thesis using assms(3)
    by (simp add: cancel_one_def chan_send_def fulfil_def)
qed

lemma handleTimeout_cases:
  "handleTimeout now r t =
     (if pending t (SeqNum (heap t r)) = None then t
      else if RetryCount (heap t r) < maxRetries t then retry now r t
      else chan_send (ResultCh (heap t r)) (timeout_result (SeqNum (heap t r)) (maxRetries t))
             (t\<lparr>pending := (pending t)(SeqNum (heap t r) := None)\<rparr>))"
  by (simp add: handleTimeout_def Let_def retry_def timeout_result_def)

lemma handleTimeout_not_pending:
  assumes "tracker_inv t" "r < next_ref t" "\<not> is_pending t r"
  shows "handleTimeout now r t = t"
proof -
  have "pending t (SeqNum (heap t r)) = None"
    using pending_cases[of t r] assms by (auto simp: tracker_inv_def is_pending_def)
  then show ?thesis by (simp add: handleTimeout_cases)
qed

lemma handleTimeout_retry:
  assumes "is_pending t r" "RetryCount (heap t r) < maxRetries t"
  shows "handleTimeout now r t = retry now r t"
  using assms by (simp add: handleTimeout_cases is_pending_def)

lemma handleTimeout_final:
  assumes "chan_ok t" "r < next_ref t" "is_pending t r" "\<not> RetryCount (heap t r) < maxRetries t"
  shows "handleTimeout now r t = fulfil r (timeout_result (SeqNum (heap t r)) (maxRetries t)) t"
proof -
  have "ResultCh (heap t r) = r" using assms(1,2) by (simp add: chan_ok_def)
  then show ?thesis using assms(3,4)
    by (simp add: handleTimeout_cases is_pending_def chan_send_def fulfil_def)
qed

lemma retry_fields [simp]:
  "next_ref (retry now r t) = next_ref t" "pending (retry now r t) = pending t"
  "chans (retry now r t) = chans t" "maxRetries (retry now r t) = maxRetries t"
  "timeout (retry now r t) = timeout t"
  "SeqNum (heap (retry now r t) r') = SeqNum (heap t r')"
  "ResultCh (heap (retry now r t) r') = ResultCh (heap t r')"
  "RequestData (heap (retry now r t) r') = RequestData (heap t r')"
  "retransmitted (retry now r t) = retransmitted t @ [RequestData (heap t r)]"
  by (simp_all add: retry_def)

lemma retry_preds [simp]:
  "is_pending (retry now r t) = is_pending t"
  "from_Resolve_timeout_or_CancelAll (retry now r t) = from_Resolve_timeout_or_CancelAll t"
  "map_ok (retry now r t) = map_ok t"
  "chan_ok (retry now r t) = chan_ok t"
  "seqs_distinct (retry now r t) = seqs_distinct t"
  by (simp_all add: is_pending_def from_Resolve_timeout_or_CancelAll_def map_ok_def chan_ok_def
      seqs_distinct_def fun_eq_iff)

lemma tracker_inv_retry: "tracker_inv t \<Longrightarrow> tracker_inv (retry now r t)"
  by (simp add: tracker_inv_def results_ok_def)

lemma used_seqs_retry [simp]: "used_seqs (retry now r t) = used_seqs t"
  by (simp add: used_seqs_def)

lemma from_timeout: "from_Resolve_timeout_or_CancelAll t (timeout_result s (maxRetries t))"
  by (simp add: from_Resolve_timeout_or_CancelAll_def timeout_result_def)

lemma handleTimeout_inv:
  assumes "tracker_inv t" "r < next_ref t"
  shows "tracker_inv (handleTimeout now r t) \<and> next_ref (handleTimeout now r t) = next_ref t \<and>
         used_seqs (handleTimeout now r t) = used_seqs t"
proof (cases "is_pending t r")
  case False
  then show ?thesis using assms by (simp add: handleTimeout_not_pending)
next
  case True
  show ?thesis
  proof (cases "RetryCount (heap t r) < maxRetries t")
    case lt: True
    then show ?thesis using True assms by (simp add: handleTimeout_retry tracker_inv_retry)
  next
    case False
    have "chan_ok t" using assms(1) by (simp add: tracker_inv_def)
    then have "handleTimeout now r t = fulfil r (timeout_result (SeqNum (heap t r)) (maxRetries t)) t"
      using assms(2) True False by (rule handleTimeout_final)
    then show ?thesis using assms True from_timeout by (simp add: tracker_inv_fulfil)
  qed
qed

lemma Resolve_inv:
  assumes "tracker_inv t"
  shows "tracker_inv (Resolve s d now t) \<and> next_ref (Resolve s d now t) = next_ref t \<and>
         used_seqs (Resolve s d now t) = used_seqs t"
proof (cases "pending t s")
  case None
  then show ?thesis using assms by (simp add: Resolve_None)
next
  case (Some r)
  have m: "map_ok t" "chan_ok t" using assms by (simp_all add: tracker_inv_def)
  have r: "r < next_ref t" "is_pending t r" using m(1) Some by (auto simp: map_ok_def is_pending_def)
  show ?thesis
    unfolding Resolve_fulfil[OF m Some] using assms r
    by (simp add: tracker_inv_fulfil from_Resolve_timeout_or_CancelAll_def)
qed

lemma cancel_one_inv:
  assumes "tracker_inv t"
  shows "tracker_inv (cancel_one s t) \<and> next_ref (cancel_one s t) = next_ref t \<and>
         used_seqs (cancel_one s t) = used_seqs t"
proof (cases "pending t s")
  case None
  then show ?thesis using assms by (simp add: cancel_one_None)
next
  case (Some r)
  have m: "map_ok t" "chan_ok t" using assms by (simp_all add: tracker_inv_def)
  have r: "r < next_ref t" "is_pending t r" using m(1) Some by (auto simp: map_ok_def is_pending_def)
  show ?thesis
    unfolding cancel_one_fulfil[OF m Some] using assms r
    by (simp add: tracker_inv_fulfil from_Resolve_timeout_or_CancelAll_def)
qed

lemma fold_handleTimeout_inv:
  assumes "tracker_inv t" "\<forall>r\<in>set rs. r < next_ref t"
  shows "tracker_inv (fold (handleTimeout now) rs t) \<and>
         next_ref (fold (handleTimeout now) rs t) = next_ref t \<and>
         used_seqs (fold (handleTimeout now) rs t) = used_seqs t"
  using assms
proof (induction rs arbitrary: t)
  case Nil
  then show ?case by simp
next
  case (Cons r rs)
  have h: "tracker_inv (handleTimeout now r t) \<and> next_ref (handleTimeout now r t) = next_ref t \<and>
         used_seqs (handleTimeout now r t) = used_seqs t"
    using Cons.prems by (intro handleTimeout_inv) simp_all
  then have "\<forall>r'\<in>set rs. r' < next_ref (handleTimeout now r t)" using Cons.prems(2) by simp
  with Cons.IH[of "handleTimeout now r t"] h show ?case by simp
qed

lemma timedOut_refs:
  assumes "map_ok t"
  shows "\<forall>r\<in>set (timedOut now order t). r < next_ref t"
  using assms by (auto simp: timedOut_def map_ok_def split: option.splits if_splits)

lemma checkTimeouts_inv:
  assumes "tracker_inv t"
  shows "tracker_inv (checkTimeouts now now' order t) \<and>
         next_ref (checkTimeouts now now' order t) = next_ref t \<and>
         used_seqs (checkTimeouts now now' order t) = used_seqs t"
  unfolding checkTimeouts_def
  using assms timedOut_refs[of t now order]
  by (intro fold_handleTimeout_inv) (simp_all add: tracker_inv_def)

lemma CancelAll_inv:
  assumes "tracker_inv t"
  shows "tracker_inv (CancelAll order t) \<and> next_ref (CancelAll order t) = next_ref t \<and>
         used_seqs (CancelAll order t) = used_seqs t"
  unfolding CancelAll_def using assms
proof (induction order arbitrary: t)
  case Nil
  then show ?case by simp
next
  case (Cons s order)
  from cancel_one_inv[OF Cons.prems, of s] Cons.IH[of "cancel_one s t"] show ?case by simp
qed

lemma apply_event_inv:
  assumes "tracker_inv t" "set (tracked_seqs [e]) \<inter> used_seqs t = {}"
  shows "tracker_inv (apply_event e t) \<and>
         used_seqs (apply_event e t) = used_seqs t \<union> set (tracked_seqs [e])"
proof (cases e)
  case (EvTrack s d now)
  then show ?thesis using assms by (simp add: tracker_inv_Track used_seqs_Track)
next
  case (EvResolve s d now)
  then show ?thesis using Resolve_inv[OF assms(1)] by simp
next
  case (EvHandleTimeout now r)
  then show ?thesis using handleTimeout_inv[OF assms(1)] assms(1) by simp
next
  case (EvCheckTimeouts now now' order)
  then show ?thesis using checkTimeouts_inv[OF assms(1)] by simp
next
  case (EvCancelAll order)
  then show ?thesis using CancelAll_inv[OF assms(1)] by simp
qed

lemma tracked_seqs_Cons: "tracked_seqs (e # es) = tracked_seqs [e] @ tracked_seqs es"
  by (cases e) simp_all

lemma run_inv:
  assumes "tracker_inv t" "distinct (tracked_seqs es)" "set (tracked_seqs es) \<inter> used_seqs t = {}"
  shows "tracker_inv (run es t)"
  using assms unfolding run_def
proof (induction es arbitrary: t)
  case Nil
  then show ?case by simp
next
  case (Cons e es)
  have split: "tracked_seqs (e # es) = tracked_seqs [e] @ tracked_seqs es"
    by (rule tracked_seqs_Cons)
  have e: "set (tracked_seqs [e]) \<inter> used_seqs t = {}" using Cons.prems(3) split by auto
  from apply_event_inv[OF Cons.prems(1) e]
  have inv: "tracker_inv (apply_event e t)"
    and us: "used_seqs (apply_event e t) = used_seqs t \<union> set (tracked_seqs [e])" by simp_all
  have "tracker_inv (fold apply_event es (apply_event e t))"
  proof (rule Cons.IH[OF inv])
    show "distinct (tracked_seqs es)" using Cons.prems(2) split by simp
    show "set (tracked_seqs es) \<inter> used_seqs (apply_event e t) = {}"
      using Cons.prems(2,3) split us by auto
  qed
  then show ?case by simp
qed

lemmas tracker_eval = run_def Track_def Resolve_def handleTimeout_def checkTimeouts_def
  timedOut_def CancelAll_def cancel_one_def chan_send_def NewTransactionTracker_def Let_def
  is_pending_def int64_mul_def timeout_result_def

lemma pending_cancel_one: "pending (cancel_one s t) = (pending t)(s := None)"
  by (cases "pending t s") (auto simp: cancel_one_def chan_send_def)

lemma pending_CancelAll:
  "pending (CancelAll order t) s = (if s \<in> set order then None else pending t s)"
  unfolding CancelAll_def
  by (induction order arbitrary: t) (simp_all add: pending_cancel_one)

lemma next_ref_apply_event:
  "next_ref (apply_event e t) = next_ref t + length (tracked_seqs [e])"
proof (cases e)
  case (EvTrack s d now)
  then show ?thesis by (simp add: Track_eq)
next
  case (EvResolve s d now)
  then show ?thesis by (cases "pending t s") (simp_all add: Resolve_def Let_def chan_send_def)
next
  case (EvHandleTimeout now r)
  then show ?thesis by (simp add: handleTimeout_def Let_def chan_send_def)
next
  case (EvCheckTimeouts now now' order)
  have "next_ref (fold (handleTimeout now') rs t) = next_ref t" for rs
    by (induction rs arbitrary: t) (simp_all add: handleTimeout_def Let_def chan_send_def)
  then show ?thesis using EvCheckTimeouts by (simp add: checkTimeouts_def)
next
  case (EvCancelAll order)
  have "next_ref (cancel_one s t') = next_ref t'" for s t'
    by (cases "pending t' s") (simp_all add: cancel_one_def chan_send_def)
  then have "next_ref (fold cancel_one order t) = next_ref t"
    by (induction order arbitrary: t) simp_all
  then show ?thesis using EvCancelAll by (simp add: CancelAll_def)
qed

lemma next_ref_run: "next_ref (run es t) = next_ref t + length (tracked_seqs es)"
  unfolding run_def
proof (induction es arbitrary: t)
  case Nil
  then show ?case by simp
next
  case (Cons e es)
  have "length (tracked_seqs (e # es)) = length (tracked_seqs [e]) + length (tracked_seqs es)"
    by (subst tracked_seqs_Cons) simp
  then show ?case using Cons.IH[of "apply_event e t"] by (simp add: next_ref_apply_event)
qed

lemma used_seqs_New: "used_seqs (NewTransactionTracker ms mr) = {}"
  by (simp add: used_seqs_def NewTransactionTracker_def)

lemma run_New_inv:
  assumes "distinct (tracked_seqs es)"
  shows "tracker_inv (run es (NewTransactionTracker ms mr))"
  using tracker_inv_New assms by (rule run_inv) (simp add: used_seqs_New)

text \<open>
  C5. In every interleaving of \<^verbatim>\<open>Track\<close>, \<^verbatim>\<open>Resolve\<close>, the timeout sweep (also a
  \<^verbatim>\<open>handleTimeout\<close> that reaches a transaction after \<^verbatim>\<open>Resolve\<close> took it) and
  \<^verbatim>\<open>CancelAll\<close> that registers no sequence number twice: every \<^verbatim>\<open>Track\<close> made one
  handle; the handle of a transaction holds no result while the transaction is pending
  and exactly one once it is not, and that one is a response passed on by \<^verbatim>\<open>Resolve\<close>,
  the timeout failure or the cancellation; after a \<^verbatim>\<open>CancelAll\<close> over the whole map every
  handle holds exactly one result; a \<^verbatim>\<open>Resolve\<close> for a sequence number with no pending
  transaction leaves the tracker as it is; and no two pending transactions have the same
  sequence number.
\<close>

theorem tracker_fulfilled_exactly_once:
  assumes "distinct (tracked_seqs es)"
  shows "next_ref (run es (NewTransactionTracker ms mr)) = length (tracked_seqs es) \<and>
    (\<forall>r<next_ref (run es (NewTransactionTracker ms mr)).
       (is_pending (run es (NewTransactionTracker ms mr)) r \<longrightarrow>
          chans (run es (NewTransactionTracker ms mr)) r = []) \<and>
       (\<not> is_pending (run es (NewTransactionTracker ms mr)) r \<longrightarrow>
          (\<exists>v. chans (run es (NewTransactionTracker ms mr)) r = [v] \<and>
               from_Resolve_timeout_or_CancelAll (run es (NewTransactionTracker ms mr)) v))) \<and>
    (dom (pending (run es (NewTransactionTracker ms mr))) \<subseteq> set order \<longrightarrow>
       (\<forall>r<next_ref (run es (NewTransactionTracker ms mr)).
          \<exists>v. chans (CancelAll order (run es (NewTransactionTracker ms mr))) r = [v])) \<and>
    (pending (run es (NewTransactionTracker ms mr)) s = None \<longrightarrow>
       Resolve s d now (run es (NewTransactionTracker ms mr)) = run es (NewTransactionTracker ms mr)) \<and>
    (\<forall>r<next_ref (run es (NewTransactionTracker ms mr)).
     \<forall>r'<next_ref (run es (NewTransactionTracker ms mr)).
       SeqNum (heap (run es (NewTransactionTracker ms mr)) r) =
       SeqNum (heap (run es (NewTransactionTracker ms mr)) r') \<longrightarrow> r = r')"
proof -
  let ?t = "run es (NewTransactionTracker ms mr)"
  have inv: "tracker_inv ?t" using assms by (rule run_New_inv)
  have n: "next_ref ?t = length (tracked_seqs es)"
    by (simp add: next_ref_run NewTransactionTracker_def)
  have ro: "results_ok ?t" and sd: "seqs_distinct ?t" using inv by (simp_all add: tracker_inv_def)
  have cancel: "\<forall>r<next_ref ?t. \<exists>v. chans (CancelAll order ?t) r = [v]"
    if sub: "dom (pending ?t) \<subseteq> set order"
  proof (intro allI impI)
    fix r assume r: "r < next_ref ?t"
    from CancelAll_inv[OF inv, of order]
    have inv': "results_ok (CancelAll order ?t)" and nx: "next_ref (CancelAll order ?t) = next_ref ?t"
      by (simp_all add: tracker_inv_def)
    have "pending (CancelAll order ?t) s' = None" for s'
      using sub by (auto simp: pending_CancelAll)
    then have "\<not> is_pending (CancelAll order ?t) r" by (simp add: is_pending_def)
    then show "\<exists>v. chans (CancelAll order ?t) r = [v]"
      using inv' r nx unfolding results_ok_def by auto
  qed
  show ?thesis
    using n ro sd cancel unfolding results_ok_def seqs_distinct_def
    by (auto simp: Resolve_None)
qed

lemma race_run_state:
  "run race_run (NewTransactionTracker 5000 3) =
     \<lparr>pending = [6 \<mapsto> 1],
      heap = (\<lambda>r. \<lparr>SeqNum = 0, RequestData = [], SentAt = 0, RetryCount = 0, ResultCh = r\<rparr>)
               (0 := \<lparr>SeqNum = 5, RequestData = [1], SentAt = 6000000001, RetryCount = 1, ResultCh = 0\<rparr>,
                1 := \<lparr>SeqNum = 6, RequestData = [2], SentAt = 8000000000, RetryCount = 0, ResultCh = 1\<rparr>),
      next_ref = 2,
      chans = (\<lambda>c. [])
               (0 := [\<lparr>res_SeqNum = 5, Response = [9], ResponseTime = 999999999, Error = None\<rparr>],
                1 := []),
      timeout = 5000000000, maxRetries = 3, retransmitted = [[1]]\<rparr>"
  by (simp add: tracker_eval race_run_def fun_upd_twist)

theorem tracker_fulfilled_exactly_once_witness:
  "distinct (tracked_seqs race_run) \<and>
   next_ref (run race_run (NewTransactionTracker 5000 3)) = 2 \<and>
   \<not> is_pending (run race_run (NewTransactionTracker 5000 3)) 0 \<and>
   chans (run race_run (NewTransactionTracker 5000 3)) 0 =
     [\<lparr>res_SeqNum = 5, Response = [9], ResponseTime = 999999999, Error = None\<rparr>] \<and>
   is_pending (run race_run (NewTransactionTracker 5000 3)) 1 \<and>
   chans (run race_run (NewTransactionTracker 5000 3)) 1 = [] \<and>
   retransmitted (run race_run (NewTransactionTracker 5000 3)) = [[1]] \<and>
   chans (CancelAll [6] (run race_run (NewTransactionTracker 5000 3))) 1 =
     [\<lparr>res_SeqNum = 6, Response = [], ResponseTime = 0, Error = Some Cancelled\<rparr>] \<and>
   Resolve 7 [9] 9000000000 (run race_run (NewTransactionTracker 5000 3)) =
     run race_run (NewTransactionTracker 5000 3)"
proof -
  let ?t = "run race_run (NewTransactionTracker 5000 3)"
  have d: "distinct (tracked_seqs race_run)" by (simp add: race_run_def)
  have none: "pending ?t 7 = None" by (simp add: race_run_state)
  from tracker_fulfilled_exactly_once[OF d, of 5000 3 "[6]" 7 "[9]" 9000000000] none
  have n: "next_ref ?t = 2" and res: "Resolve 7 [9] 9000000000 ?t = ?t"
    by (simp_all add: race_run_def)
  have rest: "\<not> is_pending ?t 0 \<and>
      chans ?t 0 = [\<lparr>res_SeqNum = 5, Response = [9], ResponseTime = 999999999, Error = None\<rparr>] \<and>
      is_pending ?t 1 \<and> chans ?t 1 = [] \<and> retransmitted ?t = [[1]] \<and>
      chans (CancelAll [6] ?t) 1 =
        [\<lparr>res_SeqNum = 6, Response = [], ResponseTime = 0, Error = Some Cancelled\<rparr>]"
    unfolding race_run_state
    by (simp add: is_pending_def CancelAll_def cancel_one_def chan_send_def)
  show ?thesis using d n res rest by blast
qed

text \<open>
  The claim as stated, for every registered transaction, fails when a sequence number is
  registered again. \<^verbatim>\<open>Track\<close> replaces the map entry: in \<open>reuse_run\<close> the first handle
  is left with no result although nothing is pending any more, so nothing will ever
  fulfil it. \<^verbatim>\<open>handleTimeout\<close> asks only whether the sequence number is in the map: in
  \<open>stale_run\<close> the first handle, already fulfilled by \<^verbatim>\<open>Resolve\<close>, receives a second
  result, and the second transaction is taken out of the map with no result.
\<close>

theorem tracker_fulfilled_exactly_once_counterexample:
  "next_ref (run reuse_run (NewTransactionTracker 5000 3)) = 2 \<and>
   chans (run reuse_run (NewTransactionTracker 5000 3)) 0 = [] \<and>
   pending (run reuse_run (NewTransactionTracker 5000 3)) 5 = None \<and>
   \<not> is_pending (run reuse_run (NewTransactionTracker 5000 3)) 0 \<and>
   chans (run stale_run (NewTransactionTracker 5000 0)) 0 =
     [\<lparr>res_SeqNum = 5, Response = [9], ResponseTime = 1, Error = None\<rparr>,
      \<lparr>res_SeqNum = 5, Response = [], ResponseTime = 0, Error = Some (Timeout 0)\<rparr>] \<and>
   chans (run stale_run (NewTransactionTracker 5000 0)) 1 = [] \<and>
   pending (run stale_run (NewTransactionTracker 5000 0)) 5 = None"
  by (simp add: tracker_eval reuse_run_def stale_run_def)

lemma retry_heap [simp]:
  "RetryCount (heap (retry now r t) r) = RetryCount (heap t r) + 1"
  "SentAt (heap (retry now r t) r) = now"
  by (simp_all add: retry_def)

lemma handleTimeouts_Nil [simp]: "handleTimeouts [] r t = t"
  by (simp add: handleTimeouts_def)

lemma handleTimeouts_Cons [simp]:
  "handleTimeouts (now # nows) r t = handleTimeouts nows r (handleTimeout now r t)"
  by (simp add: handleTimeouts_def)

lemma handleTimeouts_append:
  "handleTimeouts (xs @ ys) r t = handleTimeouts ys r (handleTimeouts xs r t)"
  by (simp add: handleTimeouts_def)






lemma checkTimeouts_single:
  assumes "pending t s = Some r"
  shows "checkTimeouts now now' [s] t =
           (if now - SentAt (heap t r) > timeout t then handleTimeout now' r t else t)"
  using assms by (simp add: checkTimeouts_def timedOut_def)




end
